theory Spec2Isabelle
  imports Main "HOL-Library.Word" "HOL-Library.Monad_Syntax"
begin

unbundle bit_operations_syntax

section \<open>Bytes, slices and panics\<close>

text \<open>
  The encoder works on Go byte slices. A slice is a list of 8-bit words; every index
  expression of the source that can leave the slice is a run-time panic, which the model
  returns as \<open>None\<close>. Go's \<open>int\<close> is modelled by \<open>int\<close>: the sums formed here are bounded
  by 128 times a row length and by the byte counts of three writes, far below \<open>2 ^ 63\<close>.
\<close>

type_synonym byte = "8 word"
type_synonym u16 = "16 word"
type_synonym u32 = "32 word"

text \<open>\<open>xs[i]\<close> as an operand: panics outside the slice.\<close>

definition rd :: "byte list \<Rightarrow> nat \<Rightarrow> byte option" where
  "rd xs i = (if i < length xs then Some (xs ! i) else None)"

text \<open>\<open>xs[1:]\<close>: panics on the empty slice.\<close>

definition slice1 :: "byte list \<Rightarrow> byte list option" where
  "slice1 xs = (case xs of [] \<Rightarrow> None | _ # ys \<Rightarrow> Some ys)"

section \<open>The adaptive filter selector\<close>

text \<open>Filter types of the PNG specification.\<close>

definition ftNone :: nat where "ftNone = 0"
definition ftSub :: nat where "ftSub = 1"
definition ftUp :: nat where "ftUp = 2"
definition ftAverage :: nat where "ftAverage = 3"
definition ftPaeth :: nat where "ftPaeth = 4"
definition nFilter :: nat where "nFilter = 5"

text \<open>The absolute value of a byte interpreted as a signed int8.\<close>

definition abs8 :: "byte \<Rightarrow> int" where
  "abs8 d = (if d < 128 then uint d else 256 - uint d)"

text \<open>
  Modelled from the spec: the function \<open>paeth\<close> is called by \<open>filter\<close> but its source file
  is not among the sources. The predictor picks whichever of left \<open>a\<close>, above \<open>b\<close> and
  upper-left \<open>c\<close> is closest to \<open>a + b - c\<close> by absolute difference, ties broken in the
  order left, above, upper-left.
\<close>

definition paeth :: "byte \<Rightarrow> byte \<Rightarrow> byte \<Rightarrow> byte" where
  "paeth a b c =
     (let p = uint a + uint b - uint c;
          pa = \<bar>p - uint a\<bar>;
          pb = \<bar>p - uint b\<bar>;
          pc = \<bar>p - uint c\<bar>
      in if pa \<le> pb \<and> pa \<le> pc then a else if pb \<le> pc then b else c)"

text \<open>
  The array \<open>cr\<close> of five row buffers, \<open>cr[ft]\<close> for filter type \<open>ft\<close>. Each buffer starts
  with the filter-type byte; the row data follow.
\<close>

record rows =
  cr0 :: "byte list"
  cr1 :: "byte list"
  cr2 :: "byte list"
  cr3 :: "byte list"
  cr4 :: "byte list"

definition row :: "rows \<Rightarrow> nat \<Rightarrow> byte list" where
  "row cr f =
     (if f = 0 then cr0 cr else if f = 1 then cr1 cr else if f = 2 then cr2 cr
      else if f = 3 then cr3 cr else cr4 cr)"

text \<open>
  One counting loop of \<open>filter\<close>, \<open>for ; i < n; i++\<close>. The body computes a byte \<open>val i\<close>
  (a panic when \<open>val i = None\<close>), stores it in \<open>dst[i]\<close> when the loop has a destination
  buffer (\<open>store\<close>), adds its magnitude to the running sum \<open>acc\<close> and, in the loops that carry the test
  \<open>if sum >= best { break }\<close>, leaves the loop (\<open>brk = Some best\<close>).
\<close>

function floop ::
  "(nat \<Rightarrow> byte option) \<Rightarrow> bool \<Rightarrow> int option \<Rightarrow> nat \<Rightarrow> nat \<Rightarrow> byte list \<Rightarrow> int
    \<Rightarrow> (byte list \<times> int) option" where
  "floop val store brk n i dst acc =
     (if i < n then
        (case val i of
           None \<Rightarrow> None
         | Some v \<Rightarrow>
             if store \<and> length dst \<le> i then None
             else
               let dst' = (if store then dst[i := v] else dst);
                   acc' = acc + abs8 v
               in if (case brk of None \<Rightarrow> False | Some best \<Rightarrow> best \<le> acc')
                  then Some (dst', acc')
                  else floop val store brk n (Suc i) dst' acc')
      else Some (dst, acc))"
  by pat_completeness auto
termination
  by (relation "measure (\<lambda>(val, store, brk, n, i, dst, acc). n - i)") auto

declare floop.simps [simp del]

text \<open>
  A candidate whose first \<open>bpp\<close> bytes have no left neighbour is computed by two loops in
  a row: \<open>for i := 0; i < bpp; i++\<close> without the test against \<open>best\<close>, then
  \<open>for i := bpp; i < n; i++\<close> with it, both on the same buffer and the same running sum.
\<close>

definition pass ::
  "(nat \<Rightarrow> byte option) \<Rightarrow> (nat \<Rightarrow> byte option) \<Rightarrow> nat \<Rightarrow> nat \<Rightarrow> int \<Rightarrow> byte list
    \<Rightarrow> (byte list \<times> int) option" where
  "pass val1 val2 bpp n best dst = do {
     (dst, s) \<leftarrow> floop val1 True None bpp 0 dst 0;
     floop val2 True (Some best) n bpp dst s
   }"

text \<open>
  The pair \<open>(best, filter)\<close> of the smallest sum so far and its filter, and the update
  \<open>if sum < best { best = sum; filter = ft }\<close> that follows each candidate.
\<close>

definition pick :: "int \<Rightarrow> nat \<Rightarrow> int \<times> nat \<Rightarrow> int \<times> nat" where
  "pick s ft bf = (if s < fst bf then (s, ft) else bf)"

text \<open>
  Chooses the filter to use for encoding the current row, and applies it. The result is
  the index of the filter and the buffers as the loops leave them. The filters are tried
  in the order up, Paeth, none, sub, average.
\<close>

definition filter_row :: "rows \<Rightarrow> byte list \<Rightarrow> nat \<Rightarrow> (nat \<times> rows) option" where
  "filter_row cr pr bpp = do {
     cdat0 \<leftarrow> slice1 (cr0 cr);
     cdat1 \<leftarrow> slice1 (cr1 cr);
     cdat2 \<leftarrow> slice1 (cr2 cr);
     cdat3 \<leftarrow> slice1 (cr3 cr);
     cdat4 \<leftarrow> slice1 (cr4 cr);
     pdat \<leftarrow> slice1 pr;
     let n = length cdat0;
     \<comment> \<open>The up filter.\<close>
     (cdat2, s) \<leftarrow> floop (\<lambda>i. do { c \<leftarrow> rd cdat0 i; p \<leftarrow> rd pdat i; Some (c - p) })
                       True None n 0 cdat2 0;
     let bf = (s, ftUp);
     \<comment> \<open>The Paeth filter.\<close>
     (cdat4, s) \<leftarrow> pass (\<lambda>i. do { c \<leftarrow> rd cdat0 i; p \<leftarrow> rd pdat i; Some (c - p) })
                      (\<lambda>i. do { c \<leftarrow> rd cdat0 i; a \<leftarrow> rd cdat0 (i - bpp);
                                b \<leftarrow> rd pdat i; ul \<leftarrow> rd pdat (i - bpp);
                                Some (c - paeth a b ul) })
                      bpp n (fst bf) cdat4;
     let bf = pick s ftPaeth bf;
     \<comment> \<open>The none filter.\<close>
     (_, s) \<leftarrow> floop (\<lambda>i. rd cdat0 i) False (Some (fst bf)) n 0 [] 0;
     let bf = pick s ftNone bf;
     \<comment> \<open>The sub filter.\<close>
     (cdat1, s) \<leftarrow> pass (\<lambda>i. rd cdat0 i)
                      (\<lambda>i. do { c \<leftarrow> rd cdat0 i; a \<leftarrow> rd cdat0 (i - bpp); Some (c - a) })
                      bpp n (fst bf) cdat1;
     let bf = pick s ftSub bf;
     \<comment> \<open>The average filter.\<close>
     (cdat3, s) \<leftarrow> pass (\<lambda>i. do { c \<leftarrow> rd cdat0 i; p \<leftarrow> rd pdat i; Some (c - p div 2) })
                      (\<lambda>i. do { c \<leftarrow> rd cdat0 i; a \<leftarrow> rd cdat0 (i - bpp); p \<leftarrow> rd pdat i;
                                Some (c - word_of_int ((uint a + uint p) div 2)) })
                      bpp n (fst bf) cdat3;
     let bf = pick s ftAverage bf;
     Some (snd bf,
           \<lparr>cr0 = cr0 cr, cr1 = hd (cr1 cr) # cdat1, cr2 = hd (cr2 cr) # cdat2,
            cr3 = hd (cr3 cr) # cdat3, cr4 = hd (cr4 cr) # cdat4\<rparr>)
   }"

subsection \<open>The filter rules as the PNG specification words them\<close>

text \<open>
  The byte \<open>bpp\<close> places to the left, \<open>0\<close> where there is none; the filtered byte of each
  rule at index \<open>i\<close> of a row \<open>cur\<close> with previous row \<open>prev\<close>; the filtered row; and the
  sum of the magnitudes of a whole filtered row, computed without any early exit.
\<close>

definition left :: "byte list \<Rightarrow> nat \<Rightarrow> nat \<Rightarrow> byte" where
  "left xs bpp i = (if i < bpp then 0 else xs ! (i - bpp))"

definition predictor :: "nat \<Rightarrow> byte \<Rightarrow> byte \<Rightarrow> byte \<Rightarrow> byte" where
  "predictor f a b c =
     (if f = ftNone then 0
      else if f = ftSub then a
      else if f = ftUp then b
      else if f = ftAverage then word_of_int ((uint a + uint b) div 2)
      else paeth a b c)"

definition filtered :: "nat \<Rightarrow> nat \<Rightarrow> byte list \<Rightarrow> byte list \<Rightarrow> nat \<Rightarrow> byte" where
  "filtered f bpp cur prev i =
     cur ! i - predictor f (left cur bpp i) (prev ! i) (left prev bpp i)"

definition filtered_row :: "nat \<Rightarrow> nat \<Rightarrow> byte list \<Rightarrow> byte list \<Rightarrow> byte list" where
  "filtered_row f bpp cur prev = map (filtered f bpp cur prev) [0..<length cur]"

definition fsum :: "nat \<Rightarrow> nat \<Rightarrow> byte list \<Rightarrow> byte list \<Rightarrow> int" where
  "fsum f bpp cur prev = sum_list (map abs8 (filtered_row f bpp cur prev))"

text \<open>The place of a rule in the order of evaluation: up, Paeth, none, sub, average.\<close>

definition eval_pos :: "nat \<Rightarrow> nat" where
  "eval_pos f =
     (if f = ftUp then 0 else if f = ftPaeth then 1 else if f = ftNone then 2
      else if f = ftSub then 3 else 4)"

text \<open>
  Reversing a rule, as a decoder does: byte by byte, the prediction from the bytes
  already reconstructed is added back to the filtered byte.
\<close>

fun unfilter_upto :: "nat \<Rightarrow> nat \<Rightarrow> byte list \<Rightarrow> byte list \<Rightarrow> nat \<Rightarrow> byte list" where
  "unfilter_upto f bpp prev fdat 0 = []"
| "unfilter_upto f bpp prev fdat (Suc k) =
     (let raw = unfilter_upto f bpp prev fdat k
      in raw @ [fdat ! k + predictor f (left raw bpp k) (prev ! k) (left prev bpp k)])"

definition unfilter :: "nat \<Rightarrow> nat \<Rightarrow> byte list \<Rightarrow> byte list \<Rightarrow> byte list" where
  "unfilter f bpp prev fdat = unfilter_upto f bpp prev fdat (length fdat)"

text \<open>
  Two concrete calls, with the buffers as \<open>writeImage\<close> allocates them (\<open>cr[i][0] = i\<close>,
  everything else zero): the first row \<open>1, 0, 1\<close> of an 8-bit gray image three pixels wide,
  and a row of an image of width zero.
\<close>


definition first_row :: rows where
  "first_row = \<lparr>cr0 = [0, 1, 0, 1], cr1 = [1, 0, 0, 0], cr2 = [2, 0, 0, 0],
                cr3 = [3, 0, 0, 0], cr4 = [4, 0, 0, 0]\<rparr>"

definition empty_row :: rows where
  "empty_row = \<lparr>cr0 = [0], cr1 = [1], cr2 = [2], cr3 = [3], cr4 = [4]\<rparr>"


section \<open>Binary primitives and chunk framing\<close>

text \<open>Big-endian. The four bytes that \<open>writeUint32\<close> stores in \<open>b[0..3]\<close>.\<close>

definition writeUint32 :: "u32 \<Rightarrow> byte list" where
  "writeUint32 u =
     [ucast (drop_bit 24 u), ucast (drop_bit 16 u), ucast (drop_bit 8 u), ucast (drop_bit 0 u)]"

text \<open>Big-endian. The two bytes that \<open>writeUint16\<close> stores in \<open>b[0..1]\<close>.\<close>

definition writeUint16 :: "u16 \<Rightarrow> byte list" where
  "writeUint16 u = [ucast (drop_bit 8 u), ucast (drop_bit 0 u)]"

text \<open>The value of a byte sequence read as a big-endian number.\<close>

definition be_nat :: "byte list \<Rightarrow> nat" where
  "be_nat bs = foldl (\<lambda>a x. 256 * a + unat x) 0 bs"

text \<open>
  The checksum of Go's \<open>hash/crc32\<close> with the IEEE polynomial, as that package defines it:
  the table entry of a byte is the byte shifted right eight times, the reversed polynomial
  \<open>0xedb88320\<close> xor-ed in whenever a one leaves; \<open>update\<close> complements the running value,
  folds the bytes through the table and complements again. A digest from \<open>NewIEEE\<close> starts
  at \<open>0\<close>, \<open>Write\<close> updates it and \<open>Sum32\<close> reads it.
\<close>

definition crc_shift :: "u32 \<Rightarrow> u32" where
  "crc_shift c = (if c AND 1 = 1 then drop_bit 1 c XOR 0xedb88320 else drop_bit 1 c)"

definition crc_table :: "byte \<Rightarrow> u32" where
  "crc_table i = (crc_shift ^^ 8) (ucast i)"

definition crc_update :: "u32 \<Rightarrow> byte list \<Rightarrow> u32" where
  "crc_update crc p =
     NOT (fold (\<lambda>v c. crc_table ((ucast c :: byte) XOR v) XOR drop_bit 8 c) p (NOT crc))"

definition ChecksumIEEE :: "byte list \<Rightarrow> u32" where
  "ChecksumIEEE data = crc_update 0 data"

text \<open>
  An \<open>io.Writer\<close> is a state and its \<open>Write\<close> method, which returns the number of bytes
  written and an error or \<open>nil\<close>. An error value is its message.
\<close>

type_synonym error = string

type_synonym 'w Write = "'w \<Rightarrow> byte list \<Rightarrow> int \<times> error option \<times> 'w"

text \<open>A byte of a Go string.\<close>

definition byte_of :: "char \<Rightarrow> byte" where
  "byte_of c = of_char c"

text \<open>
  The header and the footer that \<open>writeChunkTo\<close> builds before it writes anything: the
  length of the payload converted to \<open>uint32\<close> and the bytes \<open>name[0..3]\<close>; the checksum of a
  digest that was fed \<open>header[4:8]\<close> and then the payload.
\<close>

definition chunk_header :: "string \<Rightarrow> byte list \<Rightarrow> byte list" where
  "chunk_header name b = writeUint32 (of_nat (length b)) @ map byte_of (take 4 name)"

definition chunk_footer :: "string \<Rightarrow> byte list \<Rightarrow> byte list" where
  "chunk_footer name b =
     writeUint32 (crc_update (crc_update 0 (drop 4 (chunk_header name b))) b)"

text \<open>
  \<open>writeChunkTo\<close>. Indexing \<open>name[0..3]\<close> panics on a name of fewer than four bytes. The
  three writes follow each other; the first error ends the function.
\<close>

definition writeChunkTo ::
  "string \<Rightarrow> byte list \<Rightarrow> 'w Write \<Rightarrow> 'w \<Rightarrow> (int \<times> error option \<times> 'w) option" where
  "writeChunkTo name b W w =
     (if length name < 4 then None
      else
        let header = chunk_header name b;
            footer = chunk_footer name b;
            (hl, err, w) = W w header
        in case err of
             Some e \<Rightarrow> Some (hl, Some e, w)
           | None \<Rightarrow>
               let (bl, err, w) = W w b
               in case err of
                    Some e \<Rightarrow> Some (hl + bl, Some e, w)
                  | None \<Rightarrow>
                      let (fl, err, w) = W w footer
                      in Some (hl + bl + fl, err, w))"

text \<open>
  Three writers to run \<open>writeChunkTo\<close> against. A \<open>bytes.Buffer\<close>, which appends and never
  fails; a writer that accepts a given number of bytes and then fails with a short write;
  and, around any writer, an observer that records the argument of every call of \<open>Write\<close>.
\<close>

definition Buffer_Write :: "byte list Write" where
  "Buffer_Write buf p = (int (length p), None, buf @ p)"

definition Limited_Write :: "(nat \<times> byte list) Write" where
  "Limited_Write st p =
     (case st of (k, out) \<Rightarrow>
        if length p \<le> k then (int (length p), None, (k - length p, out @ p))
        else (int k, Some ''short write'', (0, out @ take k p)))"

definition logged :: "'w Write \<Rightarrow> (byte list list \<times> 'w) Write" where
  "logged W st p =
     (case st of (log, w) \<Rightarrow> case W w p of (n, err, w') \<Rightarrow> (n, err, (log @ [p], w')))"

section \<open>Sequence numbers and the streaming encoder\<close>

text \<open>
  \<open>SequenceNumbers\<close> is a \<open>uint32\<close> behind a pointer that the caller shares between the
  frame-control chunks and the frame-data encoders; the model passes the counter in and
  out. \<open>Next\<close> returns the value and increments the counter, which wraps as \<open>uint32\<close>
  arithmetic does.
\<close>

type_synonym SequenceNumbers = u32

definition NewSequenceNumbers :: SequenceNumbers where
  "NewSequenceNumbers = 0"

definition SequenceNumbers_Next :: "SequenceNumbers \<Rightarrow> u32 \<times> SequenceNumbers" where
  "SequenceNumbers_Next s = (let tmp = s in (tmp, s + 1))"

text \<open>
  What travels on the channel between the background goroutine and the consumer: a unit
  of compressed bytes, or an error.
\<close>

record atom =
  buf :: "byte list"
  err :: "error option"

text \<open>
  The goroutine started by \<open>NewEncoder_IDAT\<close> and its unbuffered channel, as the single
  consumer sees them: the atoms the goroutine sends, in order, each handed over when the
  consumer receives, and the way the goroutine ends after the last of them. It closes the
  channel (the deferred \<open>close(aw)\<close>), or returns without closing it, so that a further
  receive blocks forever, or panics, which ends the program.
\<close>

datatype ending = Closes | Hangs | Panics

type_synonym atomWriter = "atom list \<times> ending"

record Encoder_IDAT =
  e_aw :: atomWriter
  e_a :: "atom option"

text \<open>
  The fields \<open>aw\<close> and \<open>a\<close> of \<open>Encoder_IDAT\<close> are \<open>e_aw\<close> and \<open>e_a\<close> here. The result of a
  call that may block forever or not survive a panic is an \<open>outcome\<close>.
\<close>

datatype 'a outcome = Returns 'a | Blocks | Crashes

definition Err :: "Encoder_IDAT \<Rightarrow> error option" where
  "Err e = (case e_a e of None \<Rightarrow> None | Some at \<Rightarrow> err at)"

definition Next :: "Encoder_IDAT \<Rightarrow> (bool \<times> Encoder_IDAT) outcome" where
  "Next e =
     (if Err e \<noteq> None then Returns (False, e)
      else case e_aw e of
             (x # xs, en) \<Rightarrow> Returns (True, e\<lparr>e_aw := (xs, en), e_a := Some x\<rparr>)
           | ([], Closes) \<Rightarrow> Returns (False, e\<lparr>e_a := None\<rparr>)
           | ([], Hangs) \<Rightarrow> Blocks
           | ([], Panics) \<Rightarrow> Crashes)"

text \<open>\<open>Chunk\<close> reads \<open>e.a.buf\<close>: a nil pointer dereference before the first atom.\<close>

definition Chunk :: "Encoder_IDAT \<Rightarrow> byte list option" where
  "Chunk e = (case e_a e of None \<Rightarrow> None | Some at \<Rightarrow> Some (buf at))"

record Chunk_fdAT =
  SequenceNumber :: u32
  Chunk_IDAT :: "byte list"

text \<open>
  \<open>Encoder_fdAT.Chunk\<close>: the composite literal draws the next sequence number and then
  takes the current unit of the image-data encoder.
\<close>

definition Encoder_fdAT_Chunk ::
  "Encoder_IDAT \<Rightarrow> SequenceNumbers \<Rightarrow> (Chunk_fdAT \<times> SequenceNumbers) option" where
  "Encoder_fdAT_Chunk e seq =
     (case SequenceNumbers_Next seq of (n, seq') \<Rightarrow>
        case Chunk e of
          None \<Rightarrow> None
        | Some c \<Rightarrow> Some (\<lparr>SequenceNumber = n, Chunk_IDAT = c\<rparr>, seq'))"

text \<open>
  One encoding session draws from its counter once for every frame-control chunk (the
  caller fills \<open>Chunk_fcTL.SequenceNumber\<close> with \<open>seq.Next()\<close>) and once for every
  frame-data chunk it materializes. \<open>session\<close> runs the draws in order and returns the
  numbers drawn.
\<close>

datatype draw = Draw_fcTL | Draw_fdAT Encoder_IDAT

fun session :: "draw list \<Rightarrow> SequenceNumbers \<Rightarrow> (u32 list \<times> SequenceNumbers) option" where
  "session [] seq = Some ([], seq)"
| "session (Draw_fcTL # ds) seq =
     (case SequenceNumbers_Next seq of (n, seq') \<Rightarrow>
        case session ds seq' of
          None \<Rightarrow> None
        | Some (ns, seq'') \<Rightarrow> Some (n # ns, seq''))"
| "session (Draw_fdAT e # ds) seq =
     (case Encoder_fdAT_Chunk e seq of
        None \<Rightarrow> None
      | Some (c, seq') \<Rightarrow>
          case session ds seq' of
            None \<Rightarrow> None
          | Some (ns, seq'') \<Rightarrow> Some (SequenceNumber c # ns, seq''))"

text \<open>An encoder that holds a current unit of three bytes, for concrete sessions.\<close>

definition unit_encoder :: Encoder_IDAT where
  "unit_encoder = \<lparr>e_aw = ([], Closes), e_a = Some \<lparr>buf = [1, 2, 3], err = None\<rparr>\<rparr>"


section \<open>The header record and the pixel layouts\<close>

record Chunk_IHDR =
  Width :: u32
  Height :: u32
  BitDepth :: byte
  ColorType :: byte
  CompressionMethod :: byte
  FilterMethod :: byte
  InterlaceMethod :: byte

definition ColorType_Grayscale :: byte where "ColorType_Grayscale = 0"
definition ColorType_TrueColor :: byte where "ColorType_TrueColor = 2"
definition ColorType_Paletted :: byte where "ColorType_Paletted = 3"
definition ColorType_GrayscaleAlpha :: byte where "ColorType_GrayscaleAlpha = 4"
definition ColorType_TrueColorAlpha :: byte where "ColorType_TrueColorAlpha = 6"

definition BitDepth_1 :: byte where "BitDepth_1 = 1"
definition BitDepth_2 :: byte where "BitDepth_2 = 2"
definition BitDepth_4 :: byte where "BitDepth_4 = 4"
definition BitDepth_8 :: byte where "BitDepth_8 = 8"
definition BitDepth_16 :: byte where "BitDepth_16 = 16"

text \<open>A cb is a combination of color type and bit depth, numbered by \<open>iota\<close>.\<close>

definition cbInvalid :: nat where "cbInvalid = 0"
definition cbG1 :: nat where "cbG1 = 1"
definition cbG2 :: nat where "cbG2 = 2"
definition cbG4 :: nat where "cbG4 = 3"
definition cbG8 :: nat where "cbG8 = 4"
definition cbGA8 :: nat where "cbGA8 = 5"
definition cbTC8 :: nat where "cbTC8 = 6"
definition cbP1 :: nat where "cbP1 = 7"
definition cbP2 :: nat where "cbP2 = 8"
definition cbP4 :: nat where "cbP4 = 9"
definition cbP8 :: nat where "cbP8 = 10"
definition cbTCA8 :: nat where "cbTCA8 = 11"
definition cbG16 :: nat where "cbG16 = 12"
definition cbGA16 :: nat where "cbGA16 = 13"
definition cbTC16 :: nat where "cbTC16 = 14"
definition cbTCA16 :: nat where "cbTCA16 = 15"

definition cb :: "Chunk_IHDR \<Rightarrow> nat" where
  "cb c =
     (if ColorType c = ColorType_Grayscale \<and> BitDepth c = BitDepth_8 then cbG8
      else if ColorType c = ColorType_TrueColor \<and> BitDepth c = BitDepth_8 then cbTC8
      else if ColorType c = ColorType_Paletted \<and> BitDepth c = BitDepth_8 then cbP8
      else if ColorType c = ColorType_TrueColorAlpha \<and> BitDepth c = BitDepth_8 then cbTCA8
      else if ColorType c = ColorType_TrueColor \<and> BitDepth c = BitDepth_16 then cbTC16
      else if ColorType c = ColorType_TrueColorAlpha \<and> BitDepth c = BitDepth_16 then cbTCA16
      else if ColorType c = ColorType_Grayscale \<and> BitDepth c = BitDepth_16 then cbG16
      else cbInvalid)"

text \<open>The seven supported pairs of color type and bit depth.\<close>

definition supported :: "(byte \<times> byte) list" where
  "supported =
     [(ColorType_Grayscale, BitDepth_8), (ColorType_TrueColor, BitDepth_8),
      (ColorType_Paletted, BitDepth_8), (ColorType_TrueColorAlpha, BitDepth_8),
      (ColorType_TrueColor, BitDepth_16), (ColorType_TrueColorAlpha, BitDepth_16),
      (ColorType_Grayscale, BitDepth_16)]"

text \<open>\<open>CompressionLevel\<close> and its translation to a level of \<open>compress/zlib\<close>.\<close>

definition DefaultCompression :: int where "DefaultCompression = 0"
definition NoCompression :: int where "NoCompression = - 1"
definition BestSpeed :: int where "BestSpeed = - 2"
definition BestCompression :: int where "BestCompression = - 3"

definition zlib_level :: "int \<Rightarrow> int" where
  "zlib_level l =
     (if l = DefaultCompression then - 1
      else if l = NoCompression then 0
      else if l = BestSpeed then 1
      else if l = BestCompression then 9
      else - 1)"

section \<open>Images\<close>

text \<open>
  What \<open>writeImage\<close> uses of Go's \<open>image\<close> and \<open>image/color\<close> packages. A rectangle has the
  corners \<open>Min\<close> and \<open>Max\<close>. The pixel storage of \<open>*image.Gray\<close>, \<open>*image.RGBA\<close>,
  \<open>*image.Paletted\<close> and \<open>*image.NRGBA\<close> is the slice \<open>Pix\<close>, the distance \<open>Stride\<close> in bytes
  between rows and the rectangle \<open>Rect\<close>. Go's \<open>int\<close> coordinates and offsets are \<open>int\<close>
  here; the offsets stay far below \<open>2 ^ 63\<close> for storage that fits in memory.
\<close>

record rect =
  MinX :: int
  MinY :: int
  MaxX :: int
  MaxY :: int

definition Dx :: "rect \<Rightarrow> int" where
  "Dx r = MaxX r - MinX r"

record pixbuf =
  Pix :: "byte list"
  Stride :: int
  Rect :: rect

text \<open>
  A color is a \<open>color.NRGBA\<close>, which the NRGBA color model returns as it is, or a value
  of any other color type. The methods and the color models of the standard library that
  \<open>writeImage\<close> applies to such a color are taken as given: \<open>RGBA()\<close>, and the \<open>Y\<close> or the
  channels of the result of \<open>GrayModel\<close>, \<open>Gray16Model\<close> and \<open>NRGBA64Model\<close>.
\<close>

datatype 'c color = NRGBA byte byte byte byte | Other 'c

record 'c colorlib =
  RGBA :: "'c color \<Rightarrow> u32 \<times> u32 \<times> u32 \<times> u32"
  GrayModel :: "'c color \<Rightarrow> byte"
  Gray16Model :: "'c color \<Rightarrow> u16"
  NRGBA64Model :: "'c color \<Rightarrow> u16 \<times> u16 \<times> u16 \<times> u16"

text \<open>
  \<open>color.NRGBAModel.Convert\<close>, as \<open>image/color\<close> defines it: a \<open>color.NRGBA\<close> is returned
  unchanged; any other color is read through \<open>RGBA()\<close> and its premultiplication undone.
\<close>

definition NRGBAModel :: "'c colorlib \<Rightarrow> 'c color \<Rightarrow> byte \<times> byte \<times> byte \<times> byte" where
  "NRGBAModel lib c =
     (case c of
        NRGBA r g b al \<Rightarrow> (r, g, b, al)
      | Other _ \<Rightarrow>
          (case RGBA lib c of (r, g, b, al) \<Rightarrow>
             if al = 0xffff then
               (ucast (drop_bit 8 r), ucast (drop_bit 8 g), ucast (drop_bit 8 b), 0xff)
             else if al = 0 then (0, 0, 0, 0)
             else
               (ucast (drop_bit 8 ((r * 0xffff) div al)),
                ucast (drop_bit 8 ((g * 0xffff) div al)),
                ucast (drop_bit 8 ((b * 0xffff) div al)),
                ucast (drop_bit 8 al))))"

text \<open>
  An image as \<open>writeImage\<close> sees it: its bounds, its method \<open>At\<close> (\<open>None\<close> where the method
  panics), the results of the four type assertions to the storage types of the standard
  library (\<open>None\<close> for \<open>nil\<close>), and the method \<open>ColorIndexAt\<close> when the image implements
  \<open>image.PalettedImage\<close>.
\<close>

record 'c image =
  Bounds :: rect
  At :: "int \<Rightarrow> int \<Rightarrow> 'c color option"
  as_Gray :: "pixbuf option"
  as_RGBA :: "pixbuf option"
  as_Paletted :: "pixbuf option"
  as_NRGBA :: "pixbuf option"
  ColorIndexAt :: "(int \<Rightarrow> int \<Rightarrow> byte option) option"

text \<open>
  \<open>(*image.NRGBA).At\<close>, as the \<open>image\<close> package defines it: the zero color outside the
  rectangle; inside, the four bytes of \<open>Pix\<close> at \<open>PixOffset(x, y)\<close>, a panic when they are
  not all there. An \<open>*image.NRGBA\<close> passed as an image, and the same image behind a type
  that only has the methods of \<open>image.Image\<close>, for which all four type assertions fail.
\<close>

definition PixOffset :: "pixbuf \<Rightarrow> int \<Rightarrow> int \<Rightarrow> int" where
  "PixOffset p x y = (y - MinY (Rect p)) * Stride p + (x - MinX (Rect p)) * 4"

definition NRGBA_At :: "pixbuf \<Rightarrow> int \<Rightarrow> int \<Rightarrow> 'c color option" where
  "NRGBA_At p x y =
     (if \<not> (MinX (Rect p) \<le> x \<and> x < MaxX (Rect p) \<and> MinY (Rect p) \<le> y \<and> y < MaxY (Rect p))
      then Some (NRGBA 0 0 0 0)
      else
        let i = PixOffset p x y
        in if 0 \<le> i \<and> i + 4 \<le> int (length (Pix p))
           then Some (NRGBA (Pix p ! nat i) (Pix p ! nat (i + 1)) (Pix p ! nat (i + 2))
                        (Pix p ! nat (i + 3)))
           else None)"

definition image_NRGBA :: "pixbuf \<Rightarrow> 'c image" where
  "image_NRGBA p =
     \<lparr>Bounds = Rect p, At = NRGBA_At p, as_Gray = None, as_RGBA = None, as_Paletted = None,
      as_NRGBA = Some p, ColorIndexAt = None\<rparr>"

definition behind_interface :: "'c image \<Rightarrow> 'c image" where
  "behind_interface m =
     m\<lparr>as_Gray := None, as_RGBA := None, as_Paletted := None, as_NRGBA := None\<rparr>"

section \<open>Rows of an image as bytes\<close>

text \<open>
  The slice expression \<open>s[lo:hi]\<close>, a panic unless \<open>0 \<le> lo \<le> hi \<le> cap(s)\<close>, for a slice
  whose capacity is its length; and \<open>copy(cr[0][1:], src)\<close>, which copies as many bytes as
  the shorter of the two holds.
\<close>

definition slice :: "byte list \<Rightarrow> int \<Rightarrow> int \<Rightarrow> byte list option" where
  "slice s lo hi =
     (if 0 \<le> lo \<and> lo \<le> hi \<and> hi \<le> int (length s)
      then Some (take (nat (hi - lo)) (drop (nat lo) s)) else None)"

definition copy1 :: "byte list \<Rightarrow> byte list \<Rightarrow> byte list option" where
  "copy1 dst src =
     (case dst of
        [] \<Rightarrow> None
      | t # d \<Rightarrow> Some (t # take (length d) src @ drop (length src) d))"

text \<open>
  The loops \<open>for x := b.Min.X; x < b.Max.X; x++\<close> of \<open>writeImage\<close>: the bytes \<open>px x\<close> of one
  pixel are stored at \<open>cr[0][i]\<close>, \<open>cr[0][i+1]\<close>, \<dots> and \<open>i\<close> moves on by their number. A
  panic in \<open>px\<close> or an index outside \<open>cr[0]\<close> ends the program.
\<close>

fun pixels :: "('x \<Rightarrow> byte list option) \<Rightarrow> 'x list \<Rightarrow> nat \<Rightarrow> byte list \<Rightarrow> byte list option" where
  "pixels px [] i dst = Some dst"
| "pixels px (x # xs) i dst =
     (case px x of
        None \<Rightarrow> None
      | Some bs \<Rightarrow>
          if length dst < i + length bs then None
          else pixels px xs (i + length bs) (take i dst @ bs @ drop (i + length bs) dst))"

definition bpp_of :: "nat \<Rightarrow> nat" where
  "bpp_of c =
     (if c = cbG8 then 1 else if c = cbTC8 then 3 else if c = cbP8 then 1
      else if c = cbTCA8 then 4 else if c = cbTC16 then 6 else if c = cbTCA16 then 8
      else if c = cbG16 then 2 else 0)"

text \<open>The high and the low byte of a 16-bit channel, and the high byte of \<open>RGBA()\<close>.\<close>

definition hi_lo :: "u16 \<Rightarrow> byte list" where
  "hi_lo v = [ucast (drop_bit 8 v), ucast v]"

definition hi8 :: "u32 \<Rightarrow> byte" where
  "hi8 v = ucast (drop_bit 8 v)"

definition hi_lo32 :: "u32 \<Rightarrow> byte list" where
  "hi_lo32 v = [ucast (drop_bit 8 v), ucast v]"

text \<open>
  Convert from colors to bytes: the body of the \<open>switch cb\<close> in the row loop of
  \<open>writeImage\<close>, for the row \<open>y\<close>. The result is the new contents of \<open>cr[0]\<close>.
\<close>

definition convert_row ::
  "'c colorlib \<Rightarrow> 'c image \<Rightarrow> nat \<Rightarrow> int \<Rightarrow> byte list \<Rightarrow> byte list option" where
  "convert_row lib m c y dst =
     (let b = Bounds m; xs = [MinX b..MaxX b - 1]
      in
      if c = cbG8 then
        (case as_Gray m of
           Some gray \<Rightarrow>
             (let offset = (y - MinY b) * Stride gray
              in case slice (Pix gray) offset (offset + Dx b) of
                   None \<Rightarrow> None
                 | Some src \<Rightarrow> copy1 dst src)
         | None \<Rightarrow>
             pixels (\<lambda>x. map_option (\<lambda>col. [GrayModel lib col]) (At m x y)) xs 1 dst)
      else if c = cbTC8 then
        (let (stride, pix) =
               (case as_RGBA m of
                  Some rgba \<Rightarrow> (Stride rgba, Pix rgba)
                | None \<Rightarrow>
                    (case as_NRGBA m of
                       Some nrgba \<Rightarrow> (Stride nrgba, Pix nrgba)
                     | None \<Rightarrow> (0, [])))
         in
         if stride \<noteq> 0 then
           (let j0 = (y - MinY b) * stride
            in pixels (\<lambda>j. if 0 \<le> j \<and> j + 2 < int (length pix)
                             then Some [pix ! nat j, pix ! nat (j + 1), pix ! nat (j + 2)]
                             else None)
                 (map (\<lambda>k. j0 + 4 * k) [0..Dx b - 1]) 1 dst)
         else
           pixels (\<lambda>x. map_option (\<lambda>col. case RGBA lib col of (r, g, b, _) \<Rightarrow>
                                             [hi8 r, hi8 g, hi8 b]) (At m x y))
             xs 1 dst)
      else if c = cbP8 then
        (case as_Paletted m of
           Some paletted \<Rightarrow>
             (let offset = (y - MinY b) * Stride paletted
              in case slice (Pix paletted) offset (offset + Dx b) of
                   None \<Rightarrow> None
                 | Some src \<Rightarrow> copy1 dst src)
         | None \<Rightarrow>
             (case ColorIndexAt m of
                None \<Rightarrow> None
              | Some index_at \<Rightarrow>
                  pixels (\<lambda>x. map_option (\<lambda>i. [i]) (index_at x y)) xs 1 dst))
      else if c = cbTCA8 then
        (case as_NRGBA m of
           Some nrgba \<Rightarrow>
             (let offset = (y - MinY b) * Stride nrgba
              in case slice (Pix nrgba) offset (offset + Dx b * 4) of
                   None \<Rightarrow> None
                 | Some src \<Rightarrow> copy1 dst src)
         | None \<Rightarrow>
             pixels (\<lambda>x. map_option (\<lambda>col. case NRGBAModel lib col of (r, g, b, al) \<Rightarrow>
                                               [r, g, b, al]) (At m x y))
               xs 1 dst)
      else if c = cbG16 then
        pixels (\<lambda>x. map_option (\<lambda>col. hi_lo (Gray16Model lib col)) (At m x y)) xs 1 dst
      else if c = cbTC16 then
        pixels (\<lambda>x. map_option (\<lambda>col. case RGBA lib col of (r, g, b, _) \<Rightarrow>
                                          hi_lo32 r @ hi_lo32 g @ hi_lo32 b) (At m x y))
          xs 1 dst
      else if c = cbTCA16 then
        pixels (\<lambda>x. map_option (\<lambda>col. case NRGBA64Model lib col of (r, g, b, al) \<Rightarrow>
                                          hi_lo r @ hi_lo g @ hi_lo b @ hi_lo al) (At m x y))
          xs 1 dst
      else Some dst)"

section \<open>writeImage\<close>

text \<open>
  \<open>writeImage\<close> returns \<open>nil\<close>, returns the error of a failed \<open>Write\<close>, or panics; the state
  of the writer at that point is part of the result.
\<close>

datatype wi_result = Done | Failed error | Panicked

text \<open>
  The loop over the rows \<open>y\<close>: convert the row into \<open>cr[0]\<close>, choose the filter unless
  filtering is off, write \<open>cr[f]\<close>, and swap \<open>pr\<close> and \<open>cr[0]\<close>.
\<close>

fun rows_loop ::
  "'w Write \<Rightarrow> 'c colorlib \<Rightarrow> 'c image \<Rightarrow> nat \<Rightarrow> bool \<Rightarrow> nat \<Rightarrow> int list \<Rightarrow> rows \<Rightarrow>
   byte list \<Rightarrow> 'w \<Rightarrow> wi_result \<times> 'w" where
  "rows_loop W lib m c applyFilter bpp [] cr pr w = (Done, w)"
| "rows_loop W lib m c applyFilter bpp (y # ys) cr pr w =
     (case convert_row lib m c y (cr0 cr) of
        None \<Rightarrow> (Panicked, w)
      | Some c0 \<Rightarrow>
          (case (if applyFilter then filter_row (cr\<lparr>cr0 := c0\<rparr>) pr bpp
                 else Some (ftNone, cr\<lparr>cr0 := c0\<rparr>)) of
             None \<Rightarrow> (Panicked, w)
           | Some (f, cr') \<Rightarrow>
               (case W w (row cr' f) of
                  (n, Some e, w') \<Rightarrow> (Failed e, w')
                | (n, None, w') \<Rightarrow>
                    rows_loop W lib m c applyFilter bpp ys (cr'\<lparr>cr0 := pr\<rparr>) (cr0 cr') w')))"

text \<open>
  \<open>writeImage\<close>: the bytes per pixel of the layout, the five buffers with their
  filter-type bytes, the previous row, and the loop. \<open>make\<close> panics on a negative length,
  and the store \<open>cr[i][0] = uint8(i)\<close> panics on the length 0.
\<close>

definition writeImage ::
  "'w Write \<Rightarrow> 'c colorlib \<Rightarrow> 'w \<Rightarrow> 'c image \<Rightarrow> nat \<Rightarrow> bool \<Rightarrow> wi_result \<times> 'w" where
  "writeImage W lib w m c applyFilter =
     (let bpp = bpp_of c;
          b = Bounds m;
          len = 1 + int bpp * Dx b
      in
      if len < 1 then (Panicked, w)
      else
        let z = replicate (nat len - 1) 0;
            cr = \<lparr>cr0 = 0 # z, cr1 = 1 # z, cr2 = 2 # z, cr3 = 3 # z, cr4 = 4 # z\<rparr>;
            pr = replicate (nat len) 0
        in rows_loop W lib m c applyFilter bpp [MinY b..MaxY b - 1] cr pr w)"

section \<open>The streaming compression pipeline\<close>

text \<open>
  \<open>atomWriter.Write\<close> sends its argument as an atom and never fails. Between the
  compressor and the channel stands a \<open>bufio.Writer\<close> of \<open>1 << 15\<close> bytes, whose \<open>Write\<close>, as
  the \<open>bufio\<close> package defines it, hands full buffers on and keeps the rest; it writes a
  piece larger than the free space directly when the buffer is empty. With a writer below
  that never fails it returns the length of its argument and no error. The state is the
  buffered bytes and the atoms sent so far.

  The atom that \<open>atomWriter.Write\<close> sends holds the slice it was given, not a copy: the
  buffer of the \<open>bufio.Writer\<close>, or the piece of the compressor, which the goroutine goes on
  to overwrite while the consumer holds the unit. An atom of the model holds the bytes of
  the slice at the moment of the send; what the consumer reads from it later is not
  determined by the code, and nothing below states the bytes of a unit.
\<close>

record pipe =
  bw :: "byte list"
  sent :: "atom list"

definition atomWriter_Write :: "atom list \<Rightarrow> byte list \<Rightarrow> atom list" where
  "atomWriter_Write ch b = ch @ [\<lparr>buf = b, err = None\<rparr>]"

definition bufio_size :: nat where
  "bufio_size = 32768"

function bufio_Write :: "pipe \<Rightarrow> byte list \<Rightarrow> pipe" where
  "bufio_Write st p =
     (if length p > bufio_size - length (bw st) then
        (if bw st = [] then
           bufio_Write (st\<lparr>sent := atomWriter_Write (sent st) p\<rparr>) []
         else
           let n = min (bufio_size - length (bw st)) (length p);
               full = bw st @ take n p
           in bufio_Write (st\<lparr>bw := [], sent := atomWriter_Write (sent st) full\<rparr>) (drop n p))
      else st\<lparr>bw := bw st @ p\<rparr>)"
  by pat_completeness auto
termination
  by (relation "measure (\<lambda>(st, p). 2 * length p + (if bw st = [] then 0 else 1))") auto

declare bufio_Write.simps [simp del]

text \<open>
  The compressor of \<open>compress/zlib\<close> is taken as given: \<open>NewWriterLevel\<close> fails on a level it
  does not know; \<open>Write\<close> hands the writer below it some pieces of output, in order, and
  may fail; \<open>Close\<close> hands over the pieces that end the stream.
\<close>

record 'z coder =
  zNew :: "int \<Rightarrow> error + 'z"
  zWrite :: "'z \<Rightarrow> byte list \<Rightarrow> byte list list \<times> error option \<times> 'z"
  zClose :: "'z \<Rightarrow> byte list list"

text \<open>The writer \<open>z\<close> that \<open>writeImage\<close> is given: the compressor on the buffered channel.\<close>

definition z_Write :: "'z coder \<Rightarrow> ('z \<times> pipe) Write" where
  "z_Write cd st p =
     (case st of (z, pp) \<Rightarrow>
        case zWrite cd z p of (pieces, e, z') \<Rightarrow>
          (case e of None \<Rightarrow> int (length p) | Some _ \<Rightarrow> 0, e,
           (z', foldl bufio_Write pp pieces)))"

text \<open>
  The goroutine of \<open>NewEncoder_IDAT\<close>. When the compressor cannot be made it sends the
  error and returns, before \<open>close(aw)\<close> has been deferred. Otherwise it runs \<open>writeImage\<close>,
  sends the error if there is one, and the deferred call closes the channel. Nothing else
  happens after \<open>writeImage\<close>.
\<close>

definition goroutine ::
  "'z coder \<Rightarrow> 'c colorlib \<Rightarrow> Chunk_IHDR \<Rightarrow> 'c image \<Rightarrow> int \<Rightarrow> atomWriter" where
  "goroutine cd lib c m cl =
     (case zNew cd (zlib_level cl) of
        Inl e \<Rightarrow> ([\<lparr>buf = [], err = Some e\<rparr>], Hangs)
      | Inr z \<Rightarrow>
          (case writeImage (z_Write cd) lib (z, \<lparr>bw = [], sent = []\<rparr>) m (cb c)
                  (cl \<noteq> NoCompression) of
             (Done, (z', pp)) \<Rightarrow> (sent pp, Closes)
           | (Failed e, (z', pp)) \<Rightarrow> (sent pp @ [\<lparr>buf = [], err = Some e\<rparr>], Closes)
           | (Panicked, (z', pp)) \<Rightarrow> (sent pp, Panics)))"

text \<open>
  \<open>NewEncoder_IDAT\<close> makes the channel, starts the goroutine and returns the encoder. It
  has no other result.
\<close>

definition NewEncoder_IDAT ::
  "'z coder \<Rightarrow> 'c colorlib \<Rightarrow> Chunk_IHDR \<Rightarrow> 'c image \<Rightarrow> int \<Rightarrow> Encoder_IDAT" where
  "NewEncoder_IDAT cd lib c m cl = \<lparr>e_aw = goroutine cd lib c m cl, e_a = None\<rparr>"

text \<open>
  The consumer's loop \<open>for e.Next() { \<dots> e.Chunk() \<dots> }\<close>: the units it takes and the
  encoder when \<open>Next\<close> returns false. Every call of \<open>Next\<close> that returns true has taken an
  atom from the channel.
\<close>

function consume :: "Encoder_IDAT \<Rightarrow> (byte list list \<times> Encoder_IDAT) outcome" where
  "consume e =
     (case Next e of
        Returns (ok, e') \<Rightarrow>
          if ok then
            (case consume e' of
               Returns (us, e'') \<Rightarrow> Returns (the (Chunk e') # us, e'')
             | Blocks \<Rightarrow> Blocks
             | Crashes \<Rightarrow> Crashes)
          else Returns ([], e')
      | Blocks \<Rightarrow> Blocks
      | Crashes \<Rightarrow> Crashes)"
  by pat_completeness auto
termination
proof (relation "measure (\<lambda>e. length (fst (e_aw e)))")
  show "wf (measure (\<lambda>e. length (fst (e_aw e))))" by simp
next
  fix e :: Encoder_IDAT and x :: "bool \<times> Encoder_IDAT" and ok e'
  assume "Next e = Returns x" and "(ok, e') = x" and ok
  then have "Next e = Returns (True, e')" by simp
  then have "length (fst (e_aw e')) < length (fst (e_aw e))"
    by (auto simp: Next_def split: if_splits prod.splits list.splits ending.splits)
  then show "(e', e) \<in> measure (\<lambda>e. length (fst (e_aw e)))" by simp
qed

declare consume.simps [simp del]

text \<open>
  Writing a list of rows one after the other to a writer, until a \<open>Write\<close> fails: what
  \<open>writeImage\<close> does with the rows it has filtered.
\<close>

fun write_all :: "'w Write \<Rightarrow> 'w \<Rightarrow> byte list list \<Rightarrow> wi_result \<times> 'w" where
  "write_all W w [] = (Done, w)"
| "write_all W w (r # rs) =
     (case W w r of
        (n, Some e, w') \<Rightarrow> (Failed e, w')
      | (n, None, w') \<Rightarrow> write_all W w' rs)"

text \<open>
  The storage of an \<open>*image.NRGBA\<close> holds its rows: the bytes of every row \<open>y\<close> of the
  rectangle, four for each pixel, lie inside \<open>Pix\<close> from the offset of the row on.
\<close>

definition NRGBA_valid :: "pixbuf \<Rightarrow> bool" where
  "NRGBA_valid p =
     (\<forall>y. MinY (Rect p) \<le> y \<and> y < MaxY (Rect p) \<longrightarrow>
        0 \<le> (y - MinY (Rect p)) * Stride p \<and>
        (y - MinY (Rect p)) * Stride p + Dx (Rect p) * 4 \<le> int (length (Pix p)))"

text \<open>
  Concrete inputs. A compressor that stores: it accepts every level, hands every \<open>Write\<close>
  on as one piece without failing, and ends its stream with one byte. The color library
  of \<open>image/color\<close> on \<open>color.NRGBA\<close> colors: \<open>RGBA()\<close> premultiplies the 16-bit channels by
  alpha, the gray models weigh its result, \<open>NRGBA64Model\<close> undoes the premultiplication;
  a color of another type reads as transparent black. The image of width and height one
  with the pixel \<open>(1, 2, 3, 255)\<close>, as \<open>image.NewNRGBA\<close> lays it out, and the image of width
  zero and height one. Three headers: 8-bit true color with alpha, true color with bit
  depth 4, and 8-bit paletted.
\<close>

definition store_coder :: "unit coder" where
  "store_coder =
     \<lparr>zNew = (\<lambda>level. Inr ()), zWrite = (\<lambda>z p. ([p], None, z)), zClose = (\<lambda>z. [[0]])\<rparr>"

definition NRGBA_RGBA :: "byte \<Rightarrow> byte \<Rightarrow> byte \<Rightarrow> byte \<Rightarrow> u32 \<times> u32 \<times> u32 \<times> u32" where
  "NRGBA_RGBA r g b al =
     (let pre = (\<lambda>v. (((ucast v :: u32) OR push_bit 8 (ucast v)) * ucast al) div 0xff);
          a16 = (ucast al :: u32) OR push_bit 8 (ucast al)
      in (pre r, pre g, pre b, a16))"

definition std_colors :: "unit colorlib" where
  "std_colors =
     (let rgba = (\<lambda>c. case c of NRGBA r g b al \<Rightarrow> NRGBA_RGBA r g b al
                          | Other _ \<Rightarrow> (0, 0, 0, 0));
          luma = (\<lambda>c. case rgba c of (r, g, b, _) \<Rightarrow>
                          19595 * r + 38470 * g + 7471 * b + push_bit 15 1)
      in \<lparr>RGBA = rgba,
          GrayModel = (\<lambda>c. ucast (drop_bit 24 (luma c))),
          Gray16Model = (\<lambda>c. ucast (drop_bit 16 (luma c))),
          NRGBA64Model = (\<lambda>c. case rgba c of (r, g, b, al) \<Rightarrow>
             if al = 0xffff then (ucast r, ucast g, ucast b, 0xffff)
             else if al = 0 then (0, 0, 0, 0)
             else (ucast ((r * 0xffff) div al), ucast ((g * 0xffff) div al),
                   ucast ((b * 0xffff) div al), ucast al))\<rparr>)"

definition one_pixel :: pixbuf where
  "one_pixel =
     \<lparr>Pix = [1, 2, 3, 255], Stride = 4, Rect = \<lparr>MinX = 0, MinY = 0, MaxX = 1, MaxY = 1\<rparr>\<rparr>"

definition hdr_tca8 :: Chunk_IHDR where
  "hdr_tca8 =
     \<lparr>Width = 1, Height = 1, BitDepth = BitDepth_8, ColorType = ColorType_TrueColorAlpha,
      CompressionMethod = 0, FilterMethod = 0, InterlaceMethod = 0\<rparr>"

definition hdr_tc4 :: Chunk_IHDR where
  "hdr_tc4 =
     \<lparr>Width = 1, Height = 1, BitDepth = BitDepth_4, ColorType = ColorType_TrueColor,
      CompressionMethod = 0, FilterMethod = 0, InterlaceMethod = 0\<rparr>"



section \<open>Properties of the filter selector\<close>


lemma floop_done: "n \<le> i \<Longrightarrow> floop val store brk n i dst acc = Some (dst, acc)"
  by (subst floop.simps) simp

lemma floop_None: "i < n \<Longrightarrow> val i = None \<Longrightarrow> floop val store brk n i dst acc = None"
  by (subst floop.simps) simp

lemma floop_oob: "i < n \<Longrightarrow> store \<Longrightarrow> length dst \<le> i \<Longrightarrow> floop val store brk n i dst acc = None"
  by (subst floop.simps) (simp split: option.splits)

lemma floop_step:
  "i < n \<Longrightarrow> val i = Some v \<Longrightarrow> store \<longrightarrow> i < length dst \<Longrightarrow>
   floop val store brk n i dst acc =
     (if (case brk of None \<Rightarrow> False | Some best \<Rightarrow> best \<le> acc + abs8 v)
      then Some (if store then dst[i := v] else dst, acc + abs8 v)
      else floop val store brk n (Suc i) (if store then dst[i := v] else dst) (acc + abs8 v))"
  by (subst floop.simps) (auto simp: Let_def)

lemma floop_char:
  assumes "floop val store brk n i dst acc = Some (dst', acc')" and "i \<le> n"
  shows "\<exists>m. i \<le> m \<and> m \<le> n \<and> (\<forall>j. i \<le> j \<and> j < m \<longrightarrow> val j \<noteq> None) \<and>
           (store \<longrightarrow> i < m \<longrightarrow> m \<le> length dst) \<and>
           dst' = (if store then take i dst @ map (\<lambda>j. the (val j)) [i..<m] @ drop m dst else dst) \<and>
           acc' = acc + sum_list (map (\<lambda>j. abs8 (the (val j))) [i..<m]) \<and>
           (m < n \<longrightarrow> (\<exists>best. brk = Some best \<and> best \<le> acc'))"
  using assms
proof (induction "n - i" arbitrary: i dst acc)
  case 0
  then have "i = n" by simp
  with "0.prems" have "dst' = dst" "acc' = acc" by (simp_all add: floop_done)
  with \<open>i = n\<close> show ?case by (intro exI[of _ i]) auto
next
  case (Suc k)
  then have lt: "i < n" by simp
  from Suc.prems(1) lt obtain v where v: "val i = Some v"
    by (cases "val i") (auto simp: floop_None)
  have len: "i < length dst" if store
    using Suc.prems(1) lt that by (cases "i < length dst") (auto simp: floop_oob)
  define d1 where "d1 = (if store then dst[i := v] else dst)"
  define a1 where "a1 = acc + abs8 v"
  have step: "floop val store brk n i dst acc = (if (case brk of None \<Rightarrow> False | Some best \<Rightarrow> best \<le> a1) then Some (d1, a1) else floop val store brk n (Suc i) d1 a1)"
    unfolding d1_def a1_def using lt v len by (intro floop_step) auto
  have upt: "\<And>m. i < m \<Longrightarrow> [i..<m] = i # [Suc i..<m]" by (simp add: upt_conv_Cons)
  show ?case
  proof (cases "case brk of None \<Rightarrow> False | Some best \<Rightarrow> best \<le> a1")
    case True
    with step Suc.prems(1) have r: "dst' = d1" "acc' = a1" by auto
    from True obtain best where "brk = Some best" "best \<le> a1" by (auto split: option.splits)
    moreover have "\<forall>j. i \<le> j \<and> j < Suc i \<longrightarrow> val j \<noteq> None"
      using v by (auto simp: less_Suc_eq_le)
    ultimately show ?thesis using r lt len
      by (intro exI[of _ "Suc i"]) (auto simp: d1_def a1_def upd_conv_take_nth_drop v)
  next
    case False
    with step Suc.prems(1) have r: "floop val store brk n (Suc i) d1 a1 = Some (dst', acc')"
      by auto
    have "k = n - Suc i" using Suc.hyps(2) by simp
    from Suc.hyps(1)[OF this r] lt obtain m where m: "Suc i \<le> m" "m \<le> n"
      "\<forall>j. Suc i \<le> j \<and> j < m \<longrightarrow> val j \<noteq> None"
      "store \<longrightarrow> Suc i < m \<longrightarrow> m \<le> length d1"
      "dst' = (if store then take (Suc i) d1 @ map (\<lambda>j. the (val j)) [Suc i..<m] @ drop m d1 else d1)"
      "acc' = a1 + sum_list (map (\<lambda>j. abs8 (the (val j))) [Suc i..<m])"
      "m < n \<longrightarrow> (\<exists>best. brk = Some best \<and> best \<le> acc')"
      by auto
    have nn: "\<forall>j. i \<le> j \<and> j < m \<longrightarrow> val j \<noteq> None"
      using m(3) v by (metis Suc_leI le_neq_implies_less option.distinct(1))
    have im: "i < m" using m(1) by simp
    have lend: "store \<longrightarrow> m \<le> length dst"
      using m(4) m(1) len by (cases "Suc i = m") (auto simp: d1_def)
    have d: "dst' = (if store then take i dst @ map (\<lambda>j. the (val j)) [i..<m] @ drop m dst else dst)"
    proof (cases store)
      case False then show ?thesis using m(5) by (simp add: d1_def)
    next
      case True
      with len have "i < length dst" by simp
      then have "take (Suc i) (dst[i := v]) = take i dst @ [v]"
        by (simp add: take_Suc_conv_app_nth)
      moreover have "drop m (dst[i := v]) = drop m dst" using im by simp
      ultimately show ?thesis using m(5) True v by (simp add: d1_def upt[OF im])
    qed
    have a: "acc' = acc + sum_list (map (\<lambda>j. abs8 (the (val j))) [i..<m])"
      using m(6) v by (simp add: a1_def upt[OF im])
    show ?thesis
      using m(2) im nn lend d a m(7) by (intro exI[of _ m]) auto
  qed
qed


lemma floop_total:
  assumes "\<forall>j. i \<le> j \<and> j < n \<longrightarrow> val j \<noteq> None" and "store \<Longrightarrow> i < n \<Longrightarrow> n \<le> length dst"
  shows "\<exists>r. floop val store brk n i dst acc = Some r"
  using assms
proof (induction "n - i" arbitrary: i dst acc)
  case 0
  then show ?case by (simp add: floop_done)
next
  case (Suc k)
  then have lt: "i < n" by simp
  with Suc.prems(1) obtain v where v: "val i = Some v" by auto
  have len: "store \<longrightarrow> i < length dst" using Suc.prems(2) lt by auto
  have "\<exists>r. floop val store brk n (Suc i) (if store then dst[i := v] else dst) (acc + abs8 v) = Some r"
    using Suc.hyps(2) Suc.prems by (intro Suc.hyps(1)) auto
  then show ?case
    using floop_step[of i n val v store dst brk acc] lt v len by simp
qed

lemma abs8_nonneg: "0 \<le> abs8 d"
proof -
  have "uint d < 256" using uint_lt2p[of d] by simp
  then show ?thesis by (simp add: abs8_def)
qed

lemma sum_abs8_nonneg: "0 \<le> sum_list (map (\<lambda>j. abs8 (g j)) xs)"
  by (induction xs) (auto simp: abs8_nonneg add_nonneg_nonneg)

lemma sum_abs8_mono:
  assumes "m \<le> n"
  shows "sum_list (map (\<lambda>j. abs8 (g j)) [0..<m]) \<le> sum_list (map (\<lambda>j. abs8 (g j)) [0..<n])"
proof -
  have "[0..<n] = [0..<m] @ [m..<n]" using assms by (metis le_add_diff_inverse upt_add_eq_append zero_le)
  then show ?thesis using sum_abs8_nonneg[of g "[m..<n]"] by simp
qed

lemma pass_char:
  assumes p: "pass val1 val2 bpp n best dst = Some (dst', s)"
    and v1: "\<And>j v. j < bpp \<Longrightarrow> val1 j = Some v \<Longrightarrow> j < n \<and> v = g j"
    and v2: "\<And>j v. bpp \<le> j \<Longrightarrow> val2 j = Some v \<Longrightarrow> v = g j"
  shows "bpp \<le> n \<and> (\<exists>m. bpp \<le> m \<and> m \<le> n \<and> (0 < m \<longrightarrow> m \<le> length dst) \<and>
           dst' = map g [0..<m] @ drop m dst \<and>
           s = sum_list (map (\<lambda>j. abs8 (g j)) [0..<m]) \<and> (m < n \<longrightarrow> best \<le> s))"
proof -
  from p obtain d1 s1 where
    f1: "floop val1 True None bpp 0 dst 0 = Some (d1, s1)" and
    f2: "floop val2 True (Some best) n bpp d1 s1 = Some (dst', s)"
    by (auto simp: pass_def split: bind_splits)
  from floop_char[OF f1] obtain m1 where m1: "m1 \<le> bpp"
    "\<forall>j. j < m1 \<longrightarrow> val1 j \<noteq> None" "0 < m1 \<longrightarrow> m1 \<le> length dst"
    "d1 = map (\<lambda>j. the (val1 j)) [0..<m1] @ drop m1 dst"
    "s1 = sum_list (map (\<lambda>j. abs8 (the (val1 j))) [0..<m1])" "\<not> m1 < bpp"
    by auto
  then have [simp]: "m1 = bpp" by simp
  have g1: "\<And>j. j < bpp \<Longrightarrow> j < n \<and> the (val1 j) = g j"
    using m1(2) v1 by fastforce
  have bn: "bpp \<le> n"
  proof (cases bpp)
    case 0 then show ?thesis by simp
  next
    case (Suc k)
    then have "k < n" using g1[of k] by simp
    then show ?thesis using Suc by simp
  qed
  have d1: "d1 = map g [0..<bpp] @ drop bpp dst"
    using m1(4) g1 by simp
  have e1: "map (\<lambda>j. abs8 (the (val1 j))) [0..<bpp] = map (\<lambda>j. abs8 (g j)) [0..<bpp]"
    using g1 by simp
  have s1: "s1 = sum_list (map (\<lambda>j. abs8 (g j)) [0..<bpp])"
    by (simp only: m1(5) \<open>m1 = bpp\<close> e1)
  have lb: "0 < bpp \<Longrightarrow> bpp \<le> length dst" using m1(3) by simp
  have ld1: "length d1 = length dst" using d1 lb by (cases "bpp = 0") auto
  from floop_char[OF f2 bn] obtain m where m: "bpp \<le> m" "m \<le> n"
    "\<forall>j. bpp \<le> j \<and> j < m \<longrightarrow> val2 j \<noteq> None" "bpp < m \<longrightarrow> m \<le> length d1"
    "dst' = take bpp d1 @ map (\<lambda>j. the (val2 j)) [bpp..<m] @ drop m d1"
    "s = s1 + sum_list (map (\<lambda>j. abs8 (the (val2 j))) [bpp..<m])"
    "m < n \<longrightarrow> best \<le> s"
    by auto
  have g2: "\<And>j. bpp \<le> j \<Longrightarrow> j < m \<Longrightarrow> the (val2 j) = g j"
    using m(3) v2 by fastforce
  have split: "[0..<m] = [0..<bpp] @ [bpp..<m]"
    using m(1) by (metis le_add_diff_inverse upt_add_eq_append zero_le)
  have lm: "0 < m \<longrightarrow> m \<le> length dst"
    using m(4) m(1) lb ld1 by (cases "bpp = m") auto
  have tk: "take bpp d1 = map g [0..<bpp]" using d1 by simp
  have dr: "drop m d1 = drop m dst"
  proof (cases "bpp = 0")
    case True then show ?thesis using d1 by simp
  next
    case False
    then have "bpp \<le> length dst" using lb by simp
    then show ?thesis using d1 m(1) by simp
  qed
  have "map (\<lambda>j. the (val2 j)) [bpp..<m] = map g [bpp..<m]"
    using g2 by simp
  then have d': "dst' = map g [0..<m] @ drop m dst"
    using m(5) tk dr split by simp
  have e2: "map (\<lambda>j. abs8 (the (val2 j))) [bpp..<m] = map (\<lambda>j. abs8 (g j)) [bpp..<m]"
    using g2 by simp
  have s': "s = sum_list (map (\<lambda>j. abs8 (g j)) [0..<m])"
    by (simp only: m(6) s1 split e2 map_append sum_list_append)
  show ?thesis using bn m(1,2,7) lm d' s' by blast
qed

lemma pass_total:
  assumes "bpp \<le> n" and "\<forall>j<bpp. val1 j \<noteq> None" and "\<forall>j. bpp \<le> j \<and> j < n \<longrightarrow> val2 j \<noteq> None"
    and "n \<le> length dst"
  shows "\<exists>r. pass val1 val2 bpp n best dst = Some r"
proof -
  obtain d1 s1 where f1: "floop val1 True None bpp 0 dst 0 = Some (d1, s1)"
    using floop_total[of 0 bpp val1 True dst None 0] assms by auto
  from floop_char[OF f1] have "length d1 = length dst" by auto
  then obtain r where "floop val2 True (Some best) n bpp d1 s1 = Some r"
    using floop_total[of bpp n val2 True d1 "Some best" s1] assms by auto
  with f1 show ?thesis by (simp add: pass_def)
qed


lemma paeth_0: "paeth 0 b 0 = b"
  by (simp add: paeth_def Let_def uint_0_iff)

lemma avg_0: "word_of_int (uint p div 2) = (p::byte) div 2"
  by (simp add: word_div_def)

lemma filter_row_unfold:
  assumes "filter_row cr pr bpp = Some (f, cr')"
  obtains c0 c1 c2 c3 c4 pd d2 s2 d4 s4 d0 s0 d1 s1 d3 s3 where
    "slice1 (cr0 cr) = Some c0" "slice1 (cr1 cr) = Some c1" "slice1 (cr2 cr) = Some c2"
    "slice1 (cr3 cr) = Some c3" "slice1 (cr4 cr) = Some c4" "slice1 pr = Some pd"
    "floop (\<lambda>i. do { c \<leftarrow> rd c0 i; p \<leftarrow> rd pd i; Some (c - p) }) True None (length c0) 0 c2 0 = Some (d2, s2)"
    "pass (\<lambda>i. do { c \<leftarrow> rd c0 i; p \<leftarrow> rd pd i; Some (c - p) })
                      (\<lambda>i. do { c \<leftarrow> rd c0 i; a \<leftarrow> rd c0 (i - bpp);
                                b \<leftarrow> rd pd i; ul \<leftarrow> rd pd (i - bpp);
                                Some (c - paeth a b ul) })
                      bpp (length c0) s2 c4 = Some (d4, s4)"
    "floop (\<lambda>i. rd c0 i) False (Some (fst (pick s4 ftPaeth (s2, ftUp)))) (length c0) 0 [] 0 = Some (d0, s0)"
    "pass (\<lambda>i. rd c0 i)
                      (\<lambda>i. do { c \<leftarrow> rd c0 i; a \<leftarrow> rd c0 (i - bpp); Some (c - a) })
                      bpp (length c0) (fst (pick s0 ftNone (pick s4 ftPaeth (s2, ftUp)))) c1 = Some (d1, s1)"
    "pass (\<lambda>i. do { c \<leftarrow> rd c0 i; p \<leftarrow> rd pd i; Some (c - p div 2) })
                      (\<lambda>i. do { c \<leftarrow> rd c0 i; a \<leftarrow> rd c0 (i - bpp); p \<leftarrow> rd pd i;
                                Some (c - word_of_int ((uint a + uint p) div 2)) })
                      bpp (length c0) (fst (pick s1 ftSub (pick s0 ftNone (pick s4 ftPaeth (s2, ftUp))))) c3 = Some (d3, s3)"
    "f = snd (pick s3 ftAverage (pick s1 ftSub (pick s0 ftNone (pick s4 ftPaeth (s2, ftUp)))))"
    "cr' = \<lparr>cr0 = cr0 cr, cr1 = hd (cr1 cr) # d1, cr2 = hd (cr2 cr) # d2,
            cr3 = hd (cr3 cr) # d3, cr4 = hd (cr4 cr) # d4\<rparr>"
  using assms unfolding filter_row_def Let_def
  by (auto simp: bind_eq_Some_conv)


lemma slice1_Some: "slice1 xs = Some ys \<longleftrightarrow> xs \<noteq> [] \<and> ys = tl xs"
  by (cases xs) (auto simp: slice1_def)

lemma fsum_alt: "fsum f bpp cur prev = sum_list (map (\<lambda>j. abs8 (filtered f bpp cur prev j)) [0..<length cur])"
  by (simp add: fsum_def filtered_row_def comp_def)

lemma map_upt_take: "m \<le> n \<Longrightarrow> map g [0..<m] = take m (map g [0..<n])"
  by (simp add: take_map)

lemma rd_Some: "rd xs i = Some v \<longleftrightarrow> i < length xs \<and> v = xs ! i"
  by (auto simp: rd_def)

lemma sum_list_cong_upt:
  "(\<And>j. j < n \<Longrightarrow> f j = g j) \<Longrightarrow> sum_list (map f [0..<n]) = sum_list (map g [0..<n])"
  by (rule arg_cong[where f = sum_list]) simp

lemma partial_vs_full:
  assumes "m \<le> n" and "m < n \<longrightarrow> best \<le> s" and "s = sum_list (map (\<lambda>j. abs8 (g j)) [0..<m])"
  shows "(s < best \<longrightarrow> m = n \<and> s = sum_list (map (\<lambda>j. abs8 (g j)) [0..<n])) \<and>
         (\<not> s < best \<longrightarrow> best \<le> sum_list (map (\<lambda>j. abs8 (g j)) [0..<n]))"
  using assms sum_abs8_mono[OF assms(1), of g] by auto

lemma filter_row_char:
  assumes fr: "filter_row cr pr bpp = Some (f, cr')"
  defines "cur \<equiv> tl (cr0 cr)" and "prev \<equiv> tl pr"
  defines "n \<equiv> length cur"
  defines "S \<equiv> \<lambda>k. fsum k bpp cur prev"
  defines "F \<equiv> \<lambda>k. filtered_row k bpp cur prev"
  shows "cr0 cr \<noteq> [] \<and> cr1 cr \<noteq> [] \<and> cr2 cr \<noteq> [] \<and> cr3 cr \<noteq> [] \<and> cr4 cr \<noteq> [] \<and> pr \<noteq> []"
    and "bpp \<le> n" and "n \<le> length prev"
    and "cr0 cr' = cr0 cr"
    and "n \<le> length (tl (cr2 cr)) \<and> cr2 cr' = hd (cr2 cr) # (F ftUp @ drop n (tl (cr2 cr)))"
    and "\<exists>m. bpp \<le> m \<and> m \<le> n \<and> (0 < m \<longrightarrow> m \<le> length (tl (cr1 cr))) \<and> (f = ftSub \<longrightarrow> m = n) \<and>
           cr1 cr' = hd (cr1 cr) # (take m (F ftSub) @ drop m (tl (cr1 cr)))"
    and "\<exists>m. bpp \<le> m \<and> m \<le> n \<and> (0 < m \<longrightarrow> m \<le> length (tl (cr3 cr))) \<and> (f = ftAverage \<longrightarrow> m = n) \<and>
           cr3 cr' = hd (cr3 cr) # (take m (F ftAverage) @ drop m (tl (cr3 cr)))"
    and "\<exists>m. bpp \<le> m \<and> m \<le> n \<and> (0 < m \<longrightarrow> m \<le> length (tl (cr4 cr))) \<and> (f = ftPaeth \<longrightarrow> m = n) \<and>
           cr4 cr' = hd (cr4 cr) # (take m (F ftPaeth) @ drop m (tl (cr4 cr)))"
    and "f < 5" and "\<forall>k<5. S f \<le> S k" and "\<forall>k<5. S k = S f \<longrightarrow> eval_pos f \<le> eval_pos k"
proof -
  from fr obtain c0 c1 c2 c3 c4 pd d2 s2 d4 s4 d0 s0 d1 s1 d3 s3 where u:
    "slice1 (cr0 cr) = Some c0" "slice1 (cr1 cr) = Some c1" "slice1 (cr2 cr) = Some c2"
    "slice1 (cr3 cr) = Some c3" "slice1 (cr4 cr) = Some c4" "slice1 pr = Some pd"
    "floop (\<lambda>i. do { c \<leftarrow> rd c0 i; p \<leftarrow> rd pd i; Some (c - p) }) True None (length c0) 0 c2 0 = Some (d2, s2)"
    "pass (\<lambda>i. do { c \<leftarrow> rd c0 i; p \<leftarrow> rd pd i; Some (c - p) })
                      (\<lambda>i. do { c \<leftarrow> rd c0 i; a \<leftarrow> rd c0 (i - bpp);
                                b \<leftarrow> rd pd i; ul \<leftarrow> rd pd (i - bpp);
                                Some (c - paeth a b ul) })
                      bpp (length c0) s2 c4 = Some (d4, s4)"
    "floop (\<lambda>i. rd c0 i) False (Some (fst (pick s4 ftPaeth (s2, ftUp)))) (length c0) 0 [] 0 = Some (d0, s0)"
    "pass (\<lambda>i. rd c0 i)
                      (\<lambda>i. do { c \<leftarrow> rd c0 i; a \<leftarrow> rd c0 (i - bpp); Some (c - a) })
                      bpp (length c0) (fst (pick s0 ftNone (pick s4 ftPaeth (s2, ftUp)))) c1 = Some (d1, s1)"
    "pass (\<lambda>i. do { c \<leftarrow> rd c0 i; p \<leftarrow> rd pd i; Some (c - p div 2) })
                      (\<lambda>i. do { c \<leftarrow> rd c0 i; a \<leftarrow> rd c0 (i - bpp); p \<leftarrow> rd pd i;
                                Some (c - word_of_int ((uint a + uint p) div 2)) })
                      bpp (length c0) (fst (pick s1 ftSub (pick s0 ftNone (pick s4 ftPaeth (s2, ftUp))))) c3 = Some (d3, s3)"
    "f = snd (pick s3 ftAverage (pick s1 ftSub (pick s0 ftNone (pick s4 ftPaeth (s2, ftUp)))))"
    "cr' = \<lparr>cr0 = cr0 cr, cr1 = hd (cr1 cr) # d1, cr2 = hd (cr2 cr) # d2,
            cr3 = hd (cr3 cr) # d3, cr4 = hd (cr4 cr) # d4\<rparr>"
    by (rule filter_row_unfold)
  from u(1-6) have sl: "cr0 cr \<noteq> []" "cr1 cr \<noteq> []" "cr2 cr \<noteq> []" "cr3 cr \<noteq> []" "cr4 cr \<noteq> []" "pr \<noteq> []"
    and eqs: "c0 = cur" "c1 = tl (cr1 cr)" "c2 = tl (cr2 cr)" "c3 = tl (cr3 cr)" "c4 = tl (cr4 cr)" "pd = prev"
    by (simp_all add: slice1_Some cur_def prev_def)
  show "cr0 cr \<noteq> [] \<and> cr1 cr \<noteq> [] \<and> cr2 cr \<noteq> [] \<and> cr3 cr \<noteq> [] \<and> cr4 cr \<noteq> [] \<and> pr \<noteq> []"
    using sl by simp
  show "cr0 cr' = cr0 cr" using u(13) by simp
  note u = u[unfolded eqs, folded n_def]
  define G where "G = (\<lambda>k j. filtered k bpp cur prev j)"
  have Fk: "\<And>k. F k = map (G k) [0..<n]" by (simp add: F_def G_def filtered_row_def n_def)
  have Sk: "\<And>k. S k = sum_list (map (\<lambda>j. abs8 (G k j)) [0..<n])"
    by (simp add: S_def G_def fsum_alt n_def)
  \<comment> \<open>up\<close>
  from floop_char[OF u(7)] obtain m2 where m2: "m2 \<le> n" "\<forall>j. j < m2 \<longrightarrow> (do { c \<leftarrow> rd cur j; p \<leftarrow> rd prev j; Some (c - p) }) \<noteq> None"
    "0 < m2 \<longrightarrow> m2 \<le> length (tl (cr2 cr))"
    "d2 = map (\<lambda>j. the (do { c \<leftarrow> rd cur j; p \<leftarrow> rd prev j; Some (c - p) })) [0..<m2] @ drop m2 (tl (cr2 cr))"
    "s2 = sum_list (map (\<lambda>j. abs8 (the (do { c \<leftarrow> rd cur j; p \<leftarrow> rd prev j; Some (c - p) }))) [0..<m2])"
    "\<not> m2 < n"
    by auto
  then have [simp]: "m2 = n" by simp
  have up: "\<And>j. j < n \<Longrightarrow> j < length prev \<and> the (do { c \<leftarrow> rd cur j; p \<leftarrow> rd prev j; Some (c - p) }) = G ftUp j"
    using m2(2) by (fastforce simp: rd_def G_def filtered_def predictor_def ftUp_def ftNone_def ftSub_def n_def split: bind_splits if_splits)
  show nprev: "n \<le> length prev"
  proof (cases n)
    case 0 then show ?thesis by simp
  next
    case (Suc k) then show ?thesis using up[of k] by simp
  qed
  have d2: "d2 = F ftUp @ drop n (tl (cr2 cr))" using m2(4) up by (simp add: Fk)
  have s2: "s2 = S ftUp" unfolding m2(5) Sk \<open>m2 = n\<close>
    by (rule sum_list_cong_upt) (simp add: up)
  show "n \<le> length (tl (cr2 cr)) \<and> cr2 cr' = hd (cr2 cr) # (F ftUp @ drop n (tl (cr2 cr)))"
    using m2(3) d2 u(13) by (cases "n = 0") auto
  \<comment> \<open>Paeth\<close>
  have p4: "bpp \<le> n \<and> (\<exists>m. bpp \<le> m \<and> m \<le> n \<and> (0 < m \<longrightarrow> m \<le> length (tl (cr4 cr))) \<and>
           d4 = map (G ftPaeth) [0..<m] @ drop m (tl (cr4 cr)) \<and>
           s4 = sum_list (map (\<lambda>j. abs8 (G ftPaeth j)) [0..<m]) \<and> (m < n \<longrightarrow> s2 \<le> s4))"
    by (rule pass_char[OF u(8)])
       (auto simp: rd_Some bind_eq_Some_conv G_def filtered_def predictor_def left_def paeth_0
                   ftPaeth_def ftUp_def ftNone_def ftSub_def ftAverage_def n_def)
  then show "bpp \<le> n" by simp
  from p4 obtain m4 where m4: "bpp \<le> m4" "m4 \<le> n" "0 < m4 \<longrightarrow> m4 \<le> length (tl (cr4 cr))"
    "d4 = map (G ftPaeth) [0..<m4] @ drop m4 (tl (cr4 cr))"
    "s4 = sum_list (map (\<lambda>j. abs8 (G ftPaeth j)) [0..<m4])" "m4 < n \<longrightarrow> s2 \<le> s4" by blast
  note c4 = partial_vs_full[OF m4(2) m4(6) m4(5), folded Sk]
  \<comment> \<open>none\<close>
  define b1 where "b1 = pick s4 ftPaeth (s2, ftUp)"
  from floop_char[OF u(9)] obtain m0 where m0: "m0 \<le> n" "\<forall>j. j < m0 \<longrightarrow> rd cur j \<noteq> None"
    "s0 = sum_list (map (\<lambda>j. abs8 (the (rd cur j))) [0..<m0])"
    "m0 < n \<longrightarrow> fst b1 \<le> s0"
    by (auto simp: b1_def)
  have "map (\<lambda>j. abs8 (the (rd cur j))) [0..<m0] = map (\<lambda>j. abs8 (G ftNone j)) [0..<m0]"
    using m0(1) by (simp add: rd_def G_def filtered_def predictor_def ftNone_def n_def)
  then have s0: "s0 = sum_list (map (\<lambda>j. abs8 (G ftNone j)) [0..<m0])"
    by (simp only: m0(3))
  note c0 = partial_vs_full[OF m0(1) m0(4) s0, folded Sk]
  \<comment> \<open>sub\<close>
  define b2 where "b2 = pick s0 ftNone b1"
  have p1: "bpp \<le> n \<and> (\<exists>m. bpp \<le> m \<and> m \<le> n \<and> (0 < m \<longrightarrow> m \<le> length (tl (cr1 cr))) \<and>
           d1 = map (G ftSub) [0..<m] @ drop m (tl (cr1 cr)) \<and>
           s1 = sum_list (map (\<lambda>j. abs8 (G ftSub j)) [0..<m]) \<and> (m < n \<longrightarrow> fst b2 \<le> s1))"
    unfolding b2_def b1_def
    by (rule pass_char[OF u(10)])
       (auto simp: rd_Some bind_eq_Some_conv G_def filtered_def predictor_def left_def
                   ftPaeth_def ftUp_def ftNone_def ftSub_def ftAverage_def n_def)
  from p1 obtain m1 where m1: "bpp \<le> m1" "m1 \<le> n" "0 < m1 \<longrightarrow> m1 \<le> length (tl (cr1 cr))"
    "d1 = map (G ftSub) [0..<m1] @ drop m1 (tl (cr1 cr))"
    "s1 = sum_list (map (\<lambda>j. abs8 (G ftSub j)) [0..<m1])" "m1 < n \<longrightarrow> fst b2 \<le> s1" by blast
  note c1 = partial_vs_full[OF m1(2) m1(6) m1(5), folded Sk]
  \<comment> \<open>average\<close>
  define b3 where "b3 = pick s1 ftSub b2"
  have p3: "bpp \<le> n \<and> (\<exists>m. bpp \<le> m \<and> m \<le> n \<and> (0 < m \<longrightarrow> m \<le> length (tl (cr3 cr))) \<and>
           d3 = map (G ftAverage) [0..<m] @ drop m (tl (cr3 cr)) \<and>
           s3 = sum_list (map (\<lambda>j. abs8 (G ftAverage j)) [0..<m]) \<and> (m < n \<longrightarrow> fst b3 \<le> s3))"
    unfolding b3_def b2_def b1_def
    by (rule pass_char[OF u(11)])
       (auto simp: rd_Some bind_eq_Some_conv G_def filtered_def predictor_def left_def avg_0
                   ftPaeth_def ftUp_def ftNone_def ftSub_def ftAverage_def n_def)
  from p3 obtain m3 where m3: "bpp \<le> m3" "m3 \<le> n" "0 < m3 \<longrightarrow> m3 \<le> length (tl (cr3 cr))"
    "d3 = map (G ftAverage) [0..<m3] @ drop m3 (tl (cr3 cr))"
    "s3 = sum_list (map (\<lambda>j. abs8 (G ftAverage j)) [0..<m3])" "m3 < n \<longrightarrow> fst b3 \<le> s3" by blast
  note c3 = partial_vs_full[OF m3(2) m3(6) m3(5), folded Sk]
  have f: "f = snd (pick s3 ftAverage b3)" using u(12) by (simp add: b3_def b2_def b1_def)
  have fts: "ftNone = 0" "ftSub = 1" "ftUp = 2" "ftAverage = 3" "ftPaeth = 4"
    by (simp_all add: ftPaeth_def ftUp_def ftNone_def ftSub_def ftAverage_def)
  have five: "\<And>k::nat. k < 5 \<longleftrightarrow> k = 0 \<or> k = 1 \<or> k = 2 \<or> k = 3 \<or> k = 4" by arith
  show "f < 5" using f by (auto simp: pick_def b3_def b2_def b1_def fts)
  have sel: "(\<forall>k<5. S f \<le> S k) \<and> (\<forall>k<5. S k = S f \<longrightarrow> eval_pos f \<le> eval_pos k)"
    using c4 c0 c1 c3 s2 unfolding f b3_def b2_def b1_def pick_def five fts eval_pos_def
    by (auto split: if_splits)
  then show "\<forall>k<5. S f \<le> S k" and "\<forall>k<5. S k = S f \<longrightarrow> eval_pos f \<le> eval_pos k" by blast+
  have fS: "f = ftSub \<longrightarrow> m1 = n" "f = ftAverage \<longrightarrow> m3 = n" "f = ftPaeth \<longrightarrow> m4 = n"
    using c4 c0 c1 c3 s2 unfolding f b3_def b2_def b1_def pick_def fts
    by (auto split: if_splits)
  show "\<exists>m. bpp \<le> m \<and> m \<le> n \<and> (0 < m \<longrightarrow> m \<le> length (tl (cr1 cr))) \<and> (f = ftSub \<longrightarrow> m = n) \<and>
           cr1 cr' = hd (cr1 cr) # (take m (F ftSub) @ drop m (tl (cr1 cr)))"
    using m1 fS(1) u(13) by (intro exI[of _ m1]) (simp add: Fk take_map)
  show "\<exists>m. bpp \<le> m \<and> m \<le> n \<and> (0 < m \<longrightarrow> m \<le> length (tl (cr3 cr))) \<and> (f = ftAverage \<longrightarrow> m = n) \<and>
           cr3 cr' = hd (cr3 cr) # (take m (F ftAverage) @ drop m (tl (cr3 cr)))"
    using m3 fS(2) u(13) by (intro exI[of _ m3]) (simp add: Fk take_map)
  show "\<exists>m. bpp \<le> m \<and> m \<le> n \<and> (0 < m \<longrightarrow> m \<le> length (tl (cr4 cr))) \<and> (f = ftPaeth \<longrightarrow> m = n) \<and>
           cr4 cr' = hd (cr4 cr) # (take m (F ftPaeth) @ drop m (tl (cr4 cr)))"
    using m4 fS(3) u(13) by (intro exI[of _ m4]) (simp add: Fk take_map)
qed




lemma length_filtered_row [simp]: "length (filtered_row f bpp cur prev) = length cur"
  by (simp add: filtered_row_def)

lemma filtered_row_None: "filtered_row ftNone bpp cur prev = cur"
  by (rule nth_equalityI) (simp_all add: filtered_row_def filtered_def predictor_def ftNone_def)

lemma filter_row_chosen:
  assumes "filter_row cr pr bpp = Some (f, cr')"
  shows "take (length (tl (cr0 cr))) (tl (row cr' f)) = filtered_row f bpp (tl (cr0 cr)) (tl pr)"
proof -
  note c = filter_row_char[OF assms]
  have fts: "ftNone = 0" "ftSub = 1" "ftUp = 2" "ftAverage = 3" "ftPaeth = 4"
    by (simp_all add: ftPaeth_def ftUp_def ftNone_def ftSub_def ftAverage_def)
  from c(9) consider "f = 0" | "f = 1" | "f = 2" | "f = 3" | "f = 4" by arith
  then show ?thesis
  proof cases
    case 1 then show ?thesis using c(4) filtered_row_None[of bpp "tl (cr0 cr)" "tl pr"]
      by (simp add: row_def fts)
  next
    case 2 then show ?thesis using c(6) by (auto simp: row_def fts)
  next
    case 3 then show ?thesis using c(5) by (auto simp: row_def fts)
  next
    case 4 then show ?thesis using c(7) by (auto simp: row_def fts)
  next
    case 5 then show ?thesis using c(8) by (auto simp: row_def fts)
  qed
qed

lemma unfilter_upto_filtered:
  assumes "k \<le> length cur" and "0 < bpp"
  shows "unfilter_upto f bpp prev (filtered_row f bpp cur prev) k = take k cur"
  using assms
proof (induction k)
  case 0
  then show ?case by simp
next
  case (Suc k)
  then have k: "k < length cur" by simp
  have l: "left (take k cur) bpp k = left cur bpp k"
    using \<open>0 < bpp\<close> by (simp add: left_def)
  have "filtered_row f bpp cur prev ! k = filtered f bpp cur prev k"
    using k by (simp add: filtered_row_def)
  then show ?case using Suc k l
    by (simp add: Let_def filtered_def take_Suc_conv_app_nth)
qed

lemma unfilter_filtered: "0 < bpp \<Longrightarrow> unfilter f bpp prev (filtered_row f bpp cur prev) = cur"
  by (simp add: unfilter_def unfilter_upto_filtered)

lemma floop_total2:
  assumes "\<forall>j. i \<le> j \<and> j < n \<longrightarrow> val j \<noteq> None" and "store \<longrightarrow> n \<le> length dst"
  obtains d s where "floop val store brk n i dst acc = Some (d, s)"
proof -
  from floop_total[of i n val store dst brk acc] assms
  obtain r where "floop val store brk n i dst acc = Some r" by blast
  then show thesis using that by (cases r) auto
qed

lemma pass_total2:
  assumes "bpp \<le> n" and "\<forall>j<bpp. val1 j \<noteq> None" and "\<forall>j. bpp \<le> j \<and> j < n \<longrightarrow> val2 j \<noteq> None"
    and "n \<le> length dst"
  obtains d s where "pass val1 val2 bpp n best dst = Some (d, s)"
proof -
  from pass_total[OF assms, of best]
  obtain r where "pass val1 val2 bpp n best dst = Some r" by blast
  then show thesis using that by (cases r) auto
qed

lemma filter_row_total:
  assumes len: "length (cr0 cr) = Suc n" "length (cr1 cr) = Suc n" "length (cr2 cr) = Suc n"
    "length (cr3 cr) = Suc n" "length (cr4 cr) = Suc n" "length pr = Suc n"
    and bpp: "bpp \<le> n"
  shows "\<exists>r. filter_row cr pr bpp = Some r"
proof -
  define c0 where "c0 = tl (cr0 cr)"
  define c1 where "c1 = tl (cr1 cr)"
  define c2 where "c2 = tl (cr2 cr)"
  define c3 where "c3 = tl (cr3 cr)"
  define c4 where "c4 = tl (cr4 cr)"
  define pd where "pd = tl pr"
  have l: "length c0 = n" "length c1 = n" "length c2 = n" "length c3 = n"
    "length c4 = n" "length pd = n"
    using len by (simp_all add: c0_def c1_def c2_def c3_def c4_def pd_def)
  have ne: "cr0 cr \<noteq> []" "cr1 cr \<noteq> []" "cr2 cr \<noteq> []" "cr3 cr \<noteq> []"
    "cr4 cr \<noteq> []" "pr \<noteq> []"
    using len by auto
  have v_up: "\<forall>j. 0 \<le> j \<and> j < n \<longrightarrow> (do { c \<leftarrow> rd c0 j; p \<leftarrow> rd pd j; Some (c - p) }) \<noteq> None"
    by (simp add: rd_def l)
  have v_up1: "\<forall>j<bpp. (do { c \<leftarrow> rd c0 j; p \<leftarrow> rd pd j; Some (c - p) }) \<noteq> None"
    using bpp by (simp add: rd_def l)
  have v_p2: "\<forall>j. bpp \<le> j \<and> j < n \<longrightarrow> (do { c \<leftarrow> rd c0 j; a \<leftarrow> rd c0 (j - bpp);
                                b \<leftarrow> rd pd j; ul \<leftarrow> rd pd (j - bpp);
                                Some (c - paeth a b ul) }) \<noteq> None"
    by (simp add: rd_def l less_imp_diff_less)
  have v_n: "\<forall>j. 0 \<le> j \<and> j < n \<longrightarrow> rd c0 j \<noteq> None"
    by (simp add: rd_def l)
  have v_n1: "\<forall>j<bpp. rd c0 j \<noteq> None"
    using bpp by (simp add: rd_def l)
  have v_s2: "\<forall>j. bpp \<le> j \<and> j < n \<longrightarrow> (do { c \<leftarrow> rd c0 j; a \<leftarrow> rd c0 (j - bpp); Some (c - a) }) \<noteq> None"
    by (simp add: rd_def l less_imp_diff_less)
  have v_a1: "\<forall>j<bpp. (do { c \<leftarrow> rd c0 j; p \<leftarrow> rd pd j; Some (c - p div 2) }) \<noteq> None"
    using bpp by (simp add: rd_def l)
  have v_a2: "\<forall>j. bpp \<le> j \<and> j < n \<longrightarrow> (do { c \<leftarrow> rd c0 j; a \<leftarrow> rd c0 (j - bpp); p \<leftarrow> rd pd j;
                                Some (c - word_of_int ((uint a + uint p) div 2)) }) \<noteq> None"
    by (simp add: rd_def l less_imp_diff_less)
  have l2: "True \<longrightarrow> n \<le> length c2" and l0: "False \<longrightarrow> n \<le> length ([]::byte list)"
    and l4: "n \<le> length c4" and l1: "n \<le> length c1" and l3: "n \<le> length c3"
    by (simp_all add: l)
  obtain d2 s2 where f2: "floop (\<lambda>i. do { c \<leftarrow> rd c0 i; p \<leftarrow> rd pd i; Some (c - p) }) True None n 0 c2 0 = Some (d2, s2)"
    by (rule floop_total2[OF v_up l2])
  obtain d4 s4 where f4: "pass (\<lambda>i. do { c \<leftarrow> rd c0 i; p \<leftarrow> rd pd i; Some (c - p) })
                      (\<lambda>i. do { c \<leftarrow> rd c0 i; a \<leftarrow> rd c0 (i - bpp);
                                b \<leftarrow> rd pd i; ul \<leftarrow> rd pd (i - bpp);
                                Some (c - paeth a b ul) })
                      bpp n s2 c4 = Some (d4, s4)"
    by (rule pass_total2[OF bpp v_up1 v_p2 l4])
  define b1 where "b1 = pick s4 ftPaeth (s2, ftUp)"
  obtain d0 s0 where f0: "floop (\<lambda>i. rd c0 i) False (Some (fst b1)) n 0 [] 0 = Some (d0, s0)"
    by (rule floop_total2[OF v_n l0])
  define b2 where "b2 = pick s0 ftNone b1"
  obtain d1 s1 where f1: "pass (\<lambda>i. rd c0 i)
                      (\<lambda>i. do { c \<leftarrow> rd c0 i; a \<leftarrow> rd c0 (i - bpp); Some (c - a) })
                      bpp n (fst b2) c1 = Some (d1, s1)"
    by (rule pass_total2[OF bpp v_n1 v_s2 l1])
  define b3 where "b3 = pick s1 ftSub b2"
  obtain d3 s3 where f3: "pass (\<lambda>i. do { c \<leftarrow> rd c0 i; p \<leftarrow> rd pd i; Some (c - p div 2) })
                      (\<lambda>i. do { c \<leftarrow> rd c0 i; a \<leftarrow> rd c0 (i - bpp); p \<leftarrow> rd pd i;
                                Some (c - word_of_int ((uint a + uint p) div 2)) })
                      bpp n (fst b3) c3 = Some (d3, s3)"
    by (rule pass_total2[OF bpp v_a1 v_a2 l3])
  have sl: "slice1 (cr0 cr) = Some c0" "slice1 (cr1 cr) = Some c1" "slice1 (cr2 cr) = Some c2"
    "slice1 (cr3 cr) = Some c3" "slice1 (cr4 cr) = Some c4" "slice1 pr = Some pd"
    using ne by (simp_all add: slice1_Some c0_def c1_def c2_def c3_def c4_def pd_def)
  show ?thesis
    unfolding filter_row_def
    by (simp add: sl l Let_def f2 f4 f0[unfolded b1_def] f1[unfolded b2_def b1_def]
          f3[unfolded b3_def b2_def b1_def])
qed




lemma first_row_filtered:
  "filter_row first_row [0, 0, 0, 0] 1 =
     Some (2, \<lparr>cr0 = [0, 1, 0, 1], cr1 = [1, 1, 255, 0], cr2 = [2, 1, 0, 1],
               cr3 = [3, 1, 0, 1], cr4 = [4, 1, 255, 0]\<rparr>)"
  by code_simp

text \<open>
  Claim C2, as the code has it. Whenever the five buffers and the previous row have the
  same length and the row holds at least \<open>bpp\<close> bytes, \<open>filter\<close> returns a rule; the sum of
  magnitudes of that rule's whole filtered row, computed without early exit, is at most
  the sum of each of the five rules; and among the rules with that smallest sum it is the
  one evaluated first in the order up, Paeth, none, sub, average. The early exits of the
  loops therefore never change the choice.
\<close>

theorem filter_minimal:
  assumes "length (cr0 cr) = Suc n" and "length (cr1 cr) = Suc n" and "length (cr2 cr) = Suc n"
    and "length (cr3 cr) = Suc n" and "length (cr4 cr) = Suc n" and "length pr = Suc n"
    and "bpp \<le> n"
  shows "\<exists>f cr'. filter_row cr pr bpp = Some (f, cr') \<and> f < nFilter \<and>
           (\<forall>k<nFilter. fsum f bpp (tl (cr0 cr)) (tl pr) \<le> fsum k bpp (tl (cr0 cr)) (tl pr)) \<and>
           (\<forall>k<nFilter. fsum k bpp (tl (cr0 cr)) (tl pr) = fsum f bpp (tl (cr0 cr)) (tl pr)
               \<longrightarrow> eval_pos f \<le> eval_pos k)"
proof -
  from filter_row_total[OF assms] obtain f cr' where r: "filter_row cr pr bpp = Some (f, cr')"
    by (metis surj_pair)
  note c = filter_row_char[OF r]
  show ?thesis using r c(9,10,11) by (simp add: nFilter_def)
qed

theorem filter_minimal_witness:
  "length (cr0 first_row) = Suc 3 \<and> length (cr1 first_row) = Suc 3 \<and>
   length (cr2 first_row) = Suc 3 \<and> length (cr3 first_row) = Suc 3 \<and>
   length (cr4 first_row) = Suc 3 \<and> length [0, 0, 0, 0 :: byte] = Suc 3 \<and> (1::nat) \<le> 3 \<and>
   filter_row first_row [0, 0, 0, 0] 1 \<noteq> None \<and>
   fst (the (filter_row first_row [0, 0, 0, 0] 1)) = ftUp \<and>
   fsum ftUp 1 [1, 0, 1] [0, 0, 0] = 2 \<and> fsum ftPaeth 1 [1, 0, 1] [0, 0, 0] = 3 \<and>
   fsum ftNone 1 [1, 0, 1] [0, 0, 0] = 2 \<and> fsum ftSub 1 [1, 0, 1] [0, 0, 0] = 3 \<and>
   fsum ftAverage 1 [1, 0, 1] [0, 0, 0] = 2"
proof -
  have h: "length (cr0 first_row) = Suc 3" "length (cr1 first_row) = Suc 3"
    "length (cr2 first_row) = Suc 3" "length (cr3 first_row) = Suc 3"
    "length (cr4 first_row) = Suc 3" "length [0, 0, 0, 0 :: byte] = Suc 3" "(1::nat) \<le> 3"
    by (simp_all add: first_row_def)
  from filter_minimal[OF h] have ne: "filter_row first_row [0, 0, 0, 0] 1 \<noteq> None"
    by (elim exE conjE) simp
  have f: "fst (the (filter_row first_row [0, 0, 0, 0] 1)) = ftUp"
    by (simp only: first_row_filtered ftUp_def option.sel fst_conv)
  have v: "fsum ftUp 1 [1, 0, 1] [0, 0, 0] = 2" "fsum ftPaeth 1 [1, 0, 1] [0, 0, 0] = 3"
    "fsum ftNone 1 [1, 0, 1] [0, 0, 0] = 2" "fsum ftSub 1 [1, 0, 1] [0, 0, 0] = 3"
    "fsum ftAverage 1 [1, 0, 1] [0, 0, 0] = 2"
    by code_simp+
  show ?thesis using h ne f v by blast
qed

text \<open>
  The claim without the bound on the row length fails: on the row of an image of width
  zero, with one byte per pixel, the first loop of the Paeth candidate indexes
  \<open>cdat4[0]\<close> in an empty slice and \<open>filter\<close> panics instead of returning a rule.
\<close>

theorem filter_short_row_counterexample:
  "filter_row empty_row [0] 1 = None"
  by code_simp

text \<open>
  Claim C3. Whenever \<open>filter\<close> returns a rule, for at least one byte per pixel, reversing
  that rule on the bytes it left in the buffer of the rule (adding back the left byte, the
  byte above, the floor of their mean or the Paeth prediction, neighbours outside the row
  counting as zero) gives back the raw row.
\<close>

theorem filter_round_trip:
  assumes "filter_row cr pr bpp = Some (f, cr')" and "0 < bpp"
  shows "unfilter f bpp (tl pr) (take (length (tl (cr0 cr))) (tl (row cr' f))) = tl (cr0 cr)"
  by (simp only: filter_row_chosen[OF assms(1)] unfilter_filtered[OF assms(2)])

theorem filter_round_trip_witness:
  "filter_row first_row [0, 0, 0, 0] 1 =
     Some (2, \<lparr>cr0 = [0, 1, 0, 1], cr1 = [1, 1, 255, 0], cr2 = [2, 1, 0, 1],
               cr3 = [3, 1, 0, 1], cr4 = [4, 1, 255, 0]\<rparr>) \<and> (0::nat) < 1 \<and>
   unfilter 2 1 [0, 0, 0] [1, 0, 1] = [1, 0, 1]"
proof -
  have h: "(0::nat) < 1" by simp
  from filter_round_trip[OF first_row_filtered h]
  have "unfilter 2 1 [0, 0, 0] [1, 0, 1] = [1, 0, 1]"
    by (simp add: first_row_def row_def)
  then show ?thesis using first_row_filtered h by blast
qed

text \<open>
  Claim C9, as the code has it. After a call of \<open>filter\<close> on buffers of equal length, the
  buffer of rule 0 is unchanged and the buffer of rule 2 (up) holds the whole filtered row;
  the buffers of rules 1, 3 and 4 (sub, average, Paeth) hold the filtered bytes of their
  rule on a prefix of at least \<open>bpp\<close> bytes and keep their earlier contents behind it; the
  prefix is the whole row for the rule that is chosen.
\<close>

theorem filter_buffers:
  assumes "filter_row cr pr bpp = Some (f, cr')"
    and "length (cr1 cr) = length (cr0 cr)" and "length (cr2 cr) = length (cr0 cr)"
    and "length (cr3 cr) = length (cr0 cr)" and "length (cr4 cr) = length (cr0 cr)"
  shows "cr0 cr' = cr0 cr \<and>
         cr2 cr' = hd (cr2 cr) # filtered_row ftUp bpp (tl (cr0 cr)) (tl pr) \<and>
         (\<forall>k \<in> {ftSub, ftAverage, ftPaeth}. \<exists>m. bpp \<le> m \<and> m \<le> length (tl (cr0 cr)) \<and>
            (k = f \<longrightarrow> m = length (tl (cr0 cr))) \<and>
            row cr' k = hd (row cr k) #
              (take m (filtered_row k bpp (tl (cr0 cr)) (tl pr)) @ drop m (tl (row cr k))))"
proof -
  note c = filter_row_char[OF assms(1)]
  have fts: "ftNone = 0" "ftSub = 1" "ftUp = 2" "ftAverage = 3" "ftPaeth = 4"
    by (simp_all add: ftPaeth_def ftUp_def ftNone_def ftSub_def ftAverage_def)
  have "length (tl (cr2 cr)) = length (tl (cr0 cr))" using assms(3) by simp
  then have up: "cr2 cr' = hd (cr2 cr) # filtered_row ftUp bpp (tl (cr0 cr)) (tl pr)"
    using c(5) by simp
  have r1: "row cr' ftSub = cr1 cr'" "row cr ftSub = cr1 cr"
    and r3: "row cr' ftAverage = cr3 cr'" "row cr ftAverage = cr3 cr"
    and r4: "row cr' ftPaeth = cr4 cr'" "row cr ftPaeth = cr4 cr"
    by (simp_all add: row_def fts)
  show ?thesis
    using c(4) up c(6) c(7) c(8) unfolding r1[symmetric] r3[symmetric] r4[symmetric]
    by (simp only: ball_simps insert_iff empty_iff) (metis (no_types, lifting))
qed

theorem filter_buffers_witness:
  "filter_row first_row [0, 0, 0, 0] 1 =
     Some (2, \<lparr>cr0 = [0, 1, 0, 1], cr1 = [1, 1, 255, 0], cr2 = [2, 1, 0, 1],
               cr3 = [3, 1, 0, 1], cr4 = [4, 1, 255, 0]\<rparr>) \<and>
   length (cr1 first_row) = length (cr0 first_row) \<and>
   length (cr2 first_row) = length (cr0 first_row) \<and>
   length (cr3 first_row) = length (cr0 first_row) \<and>
   length (cr4 first_row) = length (cr0 first_row) \<and>
   filtered_row ftUp 1 [1, 0, 1] [0, 0, 0] = [1, 0, 1]"
proof -
  have h: "length (cr1 first_row) = length (cr0 first_row)"
    "length (cr2 first_row) = length (cr0 first_row)"
    "length (cr3 first_row) = length (cr0 first_row)"
    "length (cr4 first_row) = length (cr0 first_row)"
    by (simp_all add: first_row_def)
  from filter_buffers[OF first_row_filtered h]
  have "[2, 1, 0, 1] = hd (cr2 first_row) # filtered_row ftUp 1 (tl (cr0 first_row)) (tl [0, 0, 0, 0])"
    by (elim conjE) simp
  then have "filtered_row ftUp 1 [1, 0, 1] [0, 0, 0] = [1, 0, 1]"
    by (simp add: first_row_def)
  then show ?thesis using first_row_filtered h by blast
qed

text \<open>
  The buffers are not always overwritten in full: on the first row \<open>1, 0, 1\<close> the Paeth
  loop leaves at index 1, and the last byte of the Paeth buffer keeps its old value \<open>0\<close>
  where the Paeth filter gives \<open>1\<close>.
\<close>

theorem filter_buffers_counterexample:
  "cr4 (snd (the (filter_row first_row [0, 0, 0, 0] 1))) = [4, 1, 255, 0] \<and>
   4 # filtered_row ftPaeth 1 [1, 0, 1] [0, 0, 0] = [4, 1, 255, 1]"
  using first_row_filtered
  by (simp add: filtered_row_def filtered_def predictor_def left_def paeth_def
        ftUp_def ftNone_def ftSub_def ftAverage_def ftPaeth_def upt_rec)


section \<open>Properties of the chunk framing\<close>


lemma length_writeUint32 [simp]: "length (writeUint32 u) = 4"
  by (simp add: writeUint32_def)

lemma be_arith:
  fixes x :: nat
  assumes "x < 2 ^ 32"
  shows "256 * (256 * (256 * (x div 2 ^ 24 mod 256) + x div 2 ^ 16 mod 256)
        + x div 2 ^ 8 mod 256) + x mod 256 = x"
proof -
  define a where "a = x div 256"
  define b where "b = a div 256"
  define c where "c = b div 256"
  have x: "256 * a + x mod 256 = x" by (simp add: a_def)
  have a: "256 * b + a mod 256 = a" by (simp add: b_def)
  have b: "256 * c + b mod 256 = b" by (simp add: c_def)
  have e16: "x div 2 ^ 16 = b" by (simp add: a_def b_def div_mult2_eq[symmetric])
  have e24: "x div 2 ^ 24 = c" by (simp add: a_def b_def c_def div_mult2_eq[symmetric])
  have "c < 256" using assms unfolding e24[symmetric] by (simp add: less_mult_imp_div_less)
  then have cm: "c mod 256 = c" by simp
  have "256 * (256 * (256 * (c mod 256) + b mod 256) + a mod 256) + x mod 256 = x"
    by (simp only: cm b a x)
  then show ?thesis by (simp add: e16[simplified] e24[simplified] a_def)
qed


lemma be_nat_writeUint32: "be_nat (writeUint32 u) = unat u"
proof -
  have u: "unat u < 2 ^ 32" using unsigned_less[of u, where ?'a = nat] by simp
  have "be_nat (writeUint32 u) =
      256 * (256 * (256 * (unat u div 2 ^ 24 mod 256) + unat u div 2 ^ 16 mod 256)
        + unat u div 2 ^ 8 mod 256) + unat u mod 256"
    by (simp add: be_nat_def writeUint32_def unsigned_ucast_eq unat_drop_bit_eq drop_bit_eq_div
          take_bit_eq_mod unat_div)
  also have "\<dots> = unat u" using u by (rule be_arith)
  finally show ?thesis .
qed

lemma crc_update_append: "crc_update (crc_update c xs) ys = crc_update c (xs @ ys)"
  by (simp add: crc_update_def)

lemma length_chunk_header: "4 \<le> length name \<Longrightarrow> length (chunk_header name b) = 8"
  by (simp add: chunk_header_def)

lemma length_chunk_footer: "length (chunk_footer name b) = 4"
  by (simp add: chunk_footer_def)

lemma chunk_footer_crc:
  "chunk_footer name b = writeUint32 (ChecksumIEEE (map byte_of (take 4 name) @ b))"
  by (simp add: chunk_footer_def chunk_header_def ChecksumIEEE_def crc_update_append)

lemma writeChunkTo_logged:
  assumes "4 \<le> length name"
    and "W w (chunk_header name b) = (hl, e1, w1)"
    and "W w1 b = (bl, e2, w2)"
    and "W w2 (chunk_footer name b) = (fl, e3, w3)"
  shows "writeChunkTo name b (logged W) ([], w) =
           Some (if e1 \<noteq> None then (hl, e1, ([chunk_header name b], w1))
                 else if e2 \<noteq> None then (hl + bl, e2, ([chunk_header name b, b], w2))
                 else (hl + bl + fl, e3, ([chunk_header name b, b, chunk_footer name b], w3)))"
  using assms by (auto simp: writeChunkTo_def logged_def Let_def split: option.splits)

lemma writeChunkTo_Buffer:
  "4 \<le> length name \<Longrightarrow>
   writeChunkTo name b Buffer_Write out =
     Some (int (length (chunk_header name b)) + int (length b) + int (length (chunk_footer name b)),
           None, out @ chunk_header name b @ b @ chunk_footer name b)"
  by (simp add: writeChunkTo_def Buffer_Write_def Let_def)

lemma take4_chunk_header:
  "take 4 (chunk_header name b @ rest) = writeUint32 (of_nat (length b))"
  by (simp add: chunk_header_def)

lemma IEND_chunk:
  "writeChunkTo ''IEND'' [] (logged Buffer_Write) ([], []) =
     Some (12, None, ([chunk_header ''IEND'' [], [], chunk_footer ''IEND'' []],
                      chunk_header ''IEND'' [] @ chunk_footer ''IEND'' []))"
  by (simp add: writeChunkTo_def logged_def Buffer_Write_def Let_def length_chunk_header
        length_chunk_footer)

text \<open>
  Claim C1, as the code has it. For a tag of four bytes and any payload, whatever the
  writer, a call of \<open>writeChunkTo\<close> that returns without error has handed the writer
  exactly: the four bytes of the payload length converted to \<open>uint32\<close>, big-endian; the
  four bytes of the tag; the payload; and the four bytes, big-endian, of the CRC-32 (IEEE)
  of the tag followed by the payload, nothing else entering the checksum. The length field
  read as a big-endian number is the payload length modulo \<open>2 ^ 32\<close>, hence the exact byte
  count for every payload shorter than \<open>2 ^ 32\<close> bytes.
\<close>

theorem writeChunkTo_layout:
  assumes "length name = 4"
    and "writeChunkTo name b (logged W) ([], w) = Some (n, None, (log, w'))"
  shows "concat log =
           writeUint32 (of_nat (length b)) @ map byte_of name @ b @
           writeUint32 (ChecksumIEEE (map byte_of name @ b)) \<and>
         be_nat (take 4 (concat log)) = length b mod 2 ^ 32 \<and>
         (length b < 2 ^ 32 \<longrightarrow> be_nat (take 4 (concat log)) = length b)"
proof -
  obtain hl e1 w1 where r1: "W w (chunk_header name b) = (hl, e1, w1)"
    by (metis prod_cases3)
  obtain bl e2 w2 where r2: "W w1 b = (bl, e2, w2)"
    by (metis prod_cases3)
  obtain fl e3 w3 where r3: "W w2 (chunk_footer name b) = (fl, e3, w3)"
    by (metis prod_cases3)
  have n4: "4 \<le> length name" using assms(1) by simp
  from writeChunkTo_logged[OF n4 r1 r2 r3] assms(2)
  have log: "log = [chunk_header name b, b, chunk_footer name b]"
    by (auto split: if_splits)
  have c: "concat log =
           writeUint32 (of_nat (length b)) @ map byte_of name @ b @
           writeUint32 (ChecksumIEEE (map byte_of name @ b))"
    using assms(1) by (simp add: log chunk_footer_crc chunk_header_def)
  have "take 4 (concat log) = writeUint32 (of_nat (length b))"
    by (simp add: c)
  then have l: "be_nat (take 4 (concat log)) = length b mod 2 ^ 32"
    by (simp add: be_nat_writeUint32 unat_of_nat)
  show ?thesis using c l by simp
qed

theorem writeChunkTo_layout_witness:
  "length ''IEND'' = 4 \<and>
   writeChunkTo ''IEND'' [] (logged Buffer_Write) ([], []) =
     Some (12, None, ([chunk_header ''IEND'' [], [], chunk_footer ''IEND'' []],
                      chunk_header ''IEND'' [] @ chunk_footer ''IEND'' [])) \<and>
   concat [chunk_header ''IEND'' [], [], chunk_footer ''IEND'' []] =
     [0, 0, 0, 0, 73, 69, 78, 68] @ writeUint32 (ChecksumIEEE [73, 69, 78, 68]) \<and>
   be_nat (take 4 (concat [chunk_header ''IEND'' [], [], chunk_footer ''IEND'' []])) =
     length ([] :: byte list)"
proof -
  have h: "length ''IEND'' = 4" by simp
  note t = writeChunkTo_layout[OF h IEND_chunk]
  from t have c: "concat [chunk_header ''IEND'' [], [], chunk_footer ''IEND'' []] =
     [0, 0, 0, 0, 73, 69, 78, 68] @ writeUint32 (ChecksumIEEE [73, 69, 78, 68])"
    by (elim conjE) (simp add: writeUint32_def byte_of_def)
  from t have "be_nat (take 4 (concat [chunk_header ''IEND'' [], [], chunk_footer ''IEND'' []])) =
     length ([] :: byte list)"
    by (elim conjE) simp
  then show ?thesis using h c IEND_chunk by blast
qed

text \<open>
  For a payload of \<open>2 ^ 32\<close> bytes the conversion \<open>uint32(len(b))\<close> wraps: the length field
  of the chunk is zero, not the byte count of the payload.
\<close>

theorem writeChunkTo_length_counterexample:
  "be_nat (take 4 (snd (snd (the
      (writeChunkTo ''IDAT'' (replicate 4294967296 0) Buffer_Write []))))) = 0 \<and>
   length (replicate 4294967296 (0 :: byte)) = 4294967296"
proof -
  define b :: "byte list" where "b = replicate 4294967296 0"
  have lb: "length b = 4294967296" unfolding b_def by (rule length_replicate)
  have n4: "4 \<le> length ''IDAT''" by simp
  have "snd (snd (the (writeChunkTo ''IDAT'' b Buffer_Write []))) =
          chunk_header ''IDAT'' b @ b @ chunk_footer ''IDAT'' b"
    by (simp only: writeChunkTo_Buffer[OF n4] option.sel snd_conv append_Nil)
  then have "take 4 (snd (snd (the (writeChunkTo ''IDAT'' b Buffer_Write [])))) =
          writeUint32 (of_nat (length b))"
    by (simp only: take4_chunk_header)
  then have "be_nat (take 4 (snd (snd (the (writeChunkTo ''IDAT'' b Buffer_Write []))))) = 0"
    by (simp add: lb be_nat_writeUint32)
  then show ?thesis using lb unfolding b_def by blast
qed

text \<open>
  Claim C8. The observer around any writer sees at most three calls, in the order header
  (eight bytes: length and tag), payload, footer (four bytes: checksum). When a call
  returns an error no further call is made, and \<open>writeChunkTo\<close> returns that error with the
  sum of the byte counts the writer reported so far; when the first two calls succeed the
  result is the sum of the three counts and whatever the third call returned as error.
\<close>

theorem writeChunkTo_writes:
  assumes "4 \<le> length name"
    and "W w (chunk_header name b) = (hl, e1, w1)"
    and "W w1 b = (bl, e2, w2)"
    and "W w2 (chunk_footer name b) = (fl, e3, w3)"
  shows "writeChunkTo name b (logged W) ([], w) =
           Some (if e1 \<noteq> None then (hl, e1, ([chunk_header name b], w1))
                 else if e2 \<noteq> None then (hl + bl, e2, ([chunk_header name b, b], w2))
                 else (hl + bl + fl, e3, ([chunk_header name b, b, chunk_footer name b], w3))) \<and>
         length (chunk_header name b) = 8 \<and> length (chunk_footer name b) = 4"
  using writeChunkTo_logged[OF assms] length_chunk_header[OF assms(1)] length_chunk_footer
  by simp

lemma IEND_limited:
  "Limited_Write (10, []) (chunk_header ''IEND'' []) = (8, None, (2, chunk_header ''IEND'' []))"
  "Limited_Write (2, chunk_header ''IEND'' []) [] = (0, None, (2, chunk_header ''IEND'' []))"
  "Limited_Write (2, chunk_header ''IEND'' []) (chunk_footer ''IEND'' []) =
     (2, Some ''short write'', (0, chunk_header ''IEND'' [] @ take 2 (chunk_footer ''IEND'' [])))"
  by (simp_all add: Limited_Write_def length_chunk_header length_chunk_footer)

theorem writeChunkTo_writes_witness:
  "4 \<le> length ''IEND'' \<and>
   Limited_Write (10, []) (chunk_header ''IEND'' []) = (8, None, (2, chunk_header ''IEND'' [])) \<and>
   Limited_Write (2, chunk_header ''IEND'' []) [] = (0, None, (2, chunk_header ''IEND'' [])) \<and>
   Limited_Write (2, chunk_header ''IEND'' []) (chunk_footer ''IEND'' []) =
     (2, Some ''short write'', (0, chunk_header ''IEND'' [] @ take 2 (chunk_footer ''IEND'' []))) \<and>
   writeChunkTo ''IEND'' [] (logged Limited_Write) ([], (10, [])) =
     Some (10, Some ''short write'',
           ([chunk_header ''IEND'' [], [], chunk_footer ''IEND'' []],
            (0, chunk_header ''IEND'' [] @ take 2 (chunk_footer ''IEND'' []))))"
proof -
  have h: "4 \<le> length ''IEND''" by simp
  from writeChunkTo_writes[OF h IEND_limited]
  have "writeChunkTo ''IEND'' [] (logged Limited_Write) ([], (10, [])) =
     Some (10, Some ''short write'',
           ([chunk_header ''IEND'' [], [], chunk_footer ''IEND'' []],
            (0, chunk_header ''IEND'' [] @ take 2 (chunk_footer ''IEND'' []))))"
    by (elim conjE) simp
  then show ?thesis using h IEND_limited by blast
qed

section \<open>Properties of the sequence counter\<close>


lemma map_upt_Suc_shift: "map f [0..<Suc n] = f 0 # map (\<lambda>i. f (Suc i)) [0..<n]"
  by (simp add: upt_conv_Cons map_Suc_upt[symmetric] del: upt_Suc)

lemma session_numbers:
  "session ds s = Some (ns, s') \<Longrightarrow>
   ns = map (\<lambda>i. s + of_nat i) [0..<length ds] \<and> s' = s + of_nat (length ds)"
proof (induction ds arbitrary: s ns s')
  case Nil
  then show ?case by simp
next
  case (Cons d ds)
  show ?case
  proof (cases d)
    case Draw_fcTL
    with Cons.prems obtain ns1 where r: "session ds (s + 1) = Some (ns1, s')" "ns = s # ns1"
      by (auto simp: SequenceNumbers_Next_def split: option.splits)
    from Cons.IH[OF r(1)] r(2) show ?thesis
      by (simp only: map_upt_Suc_shift length_Cons) (simp add: add.assoc)
  next
    case (Draw_fdAT e)
    with Cons.prems obtain ns1 where r: "session ds (s + 1) = Some (ns1, s')" "ns = s # ns1"
      by (auto simp: Encoder_fdAT_Chunk_def SequenceNumbers_Next_def split: option.splits)
    from Cons.IH[OF r(1)] r(2) show ?thesis
      by (simp only: map_upt_Suc_shift length_Cons) (simp add: add.assoc)
  qed
qed

lemma session_total:
  "\<forall>e. Draw_fdAT e \<in> set ds \<longrightarrow> e_a e \<noteq> None \<Longrightarrow> session ds s \<noteq> None"
proof (induction ds arbitrary: s)
  case Nil
  then show ?case by simp
next
  case (Cons d ds)
  then have ih: "\<And>s. session ds s \<noteq> None" by simp
  show ?case
  proof (cases d)
    case Draw_fcTL
    then show ?thesis using ih[of "s + 1"]
      by (auto simp: SequenceNumbers_Next_def split: option.splits)
  next
    case (Draw_fdAT e)
    with Cons.prems have "e_a e \<noteq> None" by simp
    then show ?thesis using ih[of "s + 1"] Draw_fdAT
      by (auto simp: Encoder_fdAT_Chunk_def Chunk_def SequenceNumbers_Next_def split: option.splits)
  qed
qed

lemma unat_of_nat_upt:
  assumes "k \<le> 2 ^ 32"
  shows "map (\<lambda>i. unat (of_nat i :: u32)) [0..<k] = [0..<k]"
proof -
  have "\<And>i. i < k \<Longrightarrow> unat (of_nat i :: u32) = i"
    using assms by (simp add: unat_of_nat)
  then have "map (\<lambda>i. unat (of_nat i :: u32)) [0..<k] = map (\<lambda>i. i) [0..<k]"
    by (intro map_cong) auto
  then show ?thesis by simp
qed

text \<open>
  Claim C6, as the code has it. In a session of at most \<open>2 ^ 32\<close> draws from one counter
  that starts at \<open>NewSequenceNumbers\<close>, frame-control and frame-data chunks in any
  interleaving, where every frame-data chunk is materialized from an encoder that holds a
  unit, the numbers drawn are exactly \<open>0, 1, \<dots>, k - 1\<close> in the order of the draws, without
  repetition or gap. \<open>Next\<close> returns the value of the counter and adds one to it, and the
  chunk of a frame-data encoder carries the value of one such draw.
\<close>

theorem session_contiguous:
  assumes "\<forall>e. Draw_fdAT e \<in> set ds \<longrightarrow> e_a e \<noteq> None" and "length ds \<le> 2 ^ 32"
  shows "(\<exists>ns s'. session ds NewSequenceNumbers = Some (ns, s') \<and>
           map unat ns = [0..<length ds] \<and> distinct ns \<and> s' = of_nat (length ds)) \<and>
         (\<forall>s. SequenceNumbers_Next s = (s, s + 1)) \<and>
         (\<forall>e s c s'. Encoder_fdAT_Chunk e s = Some (c, s') \<longrightarrow>
            SequenceNumber c = s \<and> s' = s + 1)"
proof -
  have nx: "\<forall>s. SequenceNumbers_Next s = (s, s + 1)"
    by (simp add: SequenceNumbers_Next_def)
  have ch: "\<forall>e s c s'. Encoder_fdAT_Chunk e s = Some (c, s') \<longrightarrow>
            SequenceNumber c = s \<and> s' = s + 1"
    by (auto simp: Encoder_fdAT_Chunk_def SequenceNumbers_Next_def split: option.splits)
  from session_total[OF assms(1)] obtain ns s' where
    r: "session ds NewSequenceNumbers = Some (ns, s')" by (metis not_None_eq surj_pair)
  from session_numbers[OF r]
  have ns: "ns = map (\<lambda>i. of_nat i) [0..<length ds]" and s': "s' = of_nat (length ds)"
    by (simp_all add: NewSequenceNumbers_def)
  have u: "map unat ns = [0..<length ds]"
    using unat_of_nat_upt[OF assms(2)] by (simp add: ns comp_def)
  have "distinct (map unat ns)" by (simp add: u)
  then have "distinct ns" by (rule distinct_map[THEN iffD1, THEN conjunct1])
  then show ?thesis using r u s' nx ch by blast
qed

lemma session_fcTL_nth:
  assumes "i < k"
  shows "fst (the (session (replicate k Draw_fcTL) s)) ! i = s + of_nat i"
proof -
  have "session (replicate k Draw_fcTL) s \<noteq> None"
    by (rule session_total) simp
  then obtain ns s' where r: "session (replicate k Draw_fcTL) s = Some (ns, s')"
    by (metis not_None_eq surj_pair)
  from session_numbers[OF r] have "ns = map (\<lambda>i. s + of_nat i) [0..<k]" by simp
  then show ?thesis using assms r by simp
qed

text \<open>
  The counter is a \<open>uint32\<close>: the draw after \<open>2 ^ 32\<close> draws returns \<open>0\<close> again, the number
  of the first draw.
\<close>

theorem session_wraps_counterexample:
  "fst (the (session (replicate 4294967297 Draw_fcTL) NewSequenceNumbers)) ! 0 = 0 \<and>
   fst (the (session (replicate 4294967297 Draw_fcTL) NewSequenceNumbers)) ! 4294967296 = 0"
proof -
  have a: "(0::nat) < 4294967297" and b: "(4294967296::nat) < 4294967297" by simp_all
  show ?thesis
    by (simp add: session_fcTL_nth[OF a] session_fcTL_nth[OF b] NewSequenceNumbers_def)
qed

theorem session_contiguous_witness:
  "Draw_fdAT unit_encoder \<in> set [Draw_fcTL, Draw_fdAT unit_encoder, Draw_fdAT unit_encoder] \<and>
   e_a unit_encoder \<noteq> None \<and>
   length [Draw_fcTL, Draw_fdAT unit_encoder, Draw_fdAT unit_encoder] \<le> 2 ^ 32 \<and>
   session [Draw_fcTL, Draw_fdAT unit_encoder, Draw_fdAT unit_encoder] NewSequenceNumbers =
     Some ([0, 1, 2], 3)"
proof -
  have h1: "\<forall>e. Draw_fdAT e \<in> set [Draw_fcTL, Draw_fdAT unit_encoder, Draw_fdAT unit_encoder]
              \<longrightarrow> e_a e \<noteq> None"
    by (simp add: unit_encoder_def)
  have h2: "length [Draw_fcTL, Draw_fdAT unit_encoder, Draw_fdAT unit_encoder] \<le> 2 ^ 32"
    by simp
  from session_contiguous[OF h1 h2]
  have "session [Draw_fcTL, Draw_fdAT unit_encoder, Draw_fdAT unit_encoder] NewSequenceNumbers
          \<noteq> None"
    by (elim exE conjE) simp
  then have "session [Draw_fcTL, Draw_fdAT unit_encoder, Draw_fdAT unit_encoder] NewSequenceNumbers =
     Some ([0, 1, 2], 3)"
    by (simp add: Encoder_fdAT_Chunk_def Chunk_def SequenceNumbers_Next_def
          NewSequenceNumbers_def unit_encoder_def)
  then show ?thesis using h2 by (simp add: unit_encoder_def)
qed


section \<open>Properties of the encoder\<close>



lemma cb_invalid_iff: "cb c = cbInvalid \<longleftrightarrow> (ColorType c, BitDepth c) \<notin> set supported"
  by (simp add: cb_def supported_def cbInvalid_def cbG8_def cbTC8_def cbP8_def cbTCA8_def cbTC16_def
        cbTCA16_def cbG16_def ColorType_Grayscale_def ColorType_TrueColor_def
        ColorType_Paletted_def ColorType_TrueColorAlpha_def BitDepth_8_def BitDepth_16_def)

lemma Err_New: "Err (NewEncoder_IDAT cd lib c m cl) = None"
  by (simp add: Err_def NewEncoder_IDAT_def)

lemma convert_row_invalid: "convert_row lib m cbInvalid y dst = Some dst"
  by (simp add: convert_row_def Let_def cbInvalid_def cbG8_def cbTC8_def cbP8_def cbTCA8_def
        cbTC16_def cbTCA16_def cbG16_def)

lemma filter_row_tags:
  "filter_row \<lparr>cr0 = [t0], cr1 = [t1], cr2 = [t2], cr3 = [t3], cr4 = [t4]\<rparr> [tp] 0 =
     Some (ftUp, \<lparr>cr0 = [t0], cr1 = [t1], cr2 = [t2], cr3 = [t3], cr4 = [t4]\<rparr>)"
  by (simp add: filter_row_def pass_def floop_done slice1_def pick_def Let_def)

lemma rows_loop_invalid:
  "rows_loop W lib m cbInvalid af 0 ys
      \<lparr>cr0 = [0], cr1 = [1], cr2 = [2], cr3 = [3], cr4 = [4]\<rparr> [0] w =
   write_all W w (replicate (length ys) [if af then 2 else 0])"
proof (induction ys arbitrary: w)
  case Nil
  then show ?case by simp
next
  case (Cons y ys)
  show ?case
  proof (cases af)
    case True
    then show ?thesis using Cons.IH
      by (simp add: convert_row_invalid filter_row_tags row_def ftUp_def
            split: prod.splits option.splits)
  next
    case False
    then show ?thesis using Cons.IH
      by (simp add: convert_row_invalid row_def ftNone_def split: prod.splits option.splits)
  qed
qed

lemma writeImage_invalid:
  "writeImage W lib w m cbInvalid af =
     write_all W w (replicate (nat (MaxY (Bounds m) - MinY (Bounds m))) [if af then 2 else 0])"
proof -
  have b: "bpp_of cbInvalid = 0"
    by (simp add: bpp_of_def cbInvalid_def cbG8_def cbTC8_def cbP8_def cbTCA8_def
        cbTC16_def cbTCA16_def cbG16_def)
  show ?thesis
    by (simp add: writeImage_def b Let_def rows_loop_invalid)
qed

text \<open>
  Claim C4, as the code has it. For every header whose pair of color type and bit depth
  is not one of the seven supported ones, \<open>cb\<close> returns \<open>cbInvalid\<close>, and nothing rejects it:
  \<open>NewEncoder_IDAT\<close> has no error result, the encoder it returns has an empty error
  accessor and its channel belongs to the goroutine that was started, and \<open>writeImage\<close>
  runs with zero bytes per pixel, writing for every row of the image the single
  filter-type byte, \<open>2\<close> when the filter is applied and \<open>0\<close> when it is not.
\<close>

theorem unsupported_not_rejected:
  assumes "(ColorType c, BitDepth c) \<notin> set supported"
  shows "cb c = cbInvalid \<and>
         Err (NewEncoder_IDAT cd lib c m cl) = None \<and>
         e_aw (NewEncoder_IDAT cd lib c m cl) = goroutine cd lib c m cl \<and>
         writeImage W lib w m (cb c) af =
           write_all W w
             (replicate (nat (MaxY (Bounds m) - MinY (Bounds m))) [if af then 2 else 0])"
proof -
  have i: "cb c = cbInvalid" using assms by (simp add: cb_invalid_iff)
  show ?thesis
    by (simp add: i Err_New writeImage_invalid) (simp add: NewEncoder_IDAT_def)
qed

lemma tc4_unsupported: "(ColorType hdr_tc4, BitDepth hdr_tc4) \<notin> set supported"
  by (simp add: hdr_tc4_def supported_def ColorType_Grayscale_def ColorType_TrueColor_def
        ColorType_Paletted_def ColorType_TrueColorAlpha_def BitDepth_4_def BitDepth_8_def
        BitDepth_16_def)

lemma bufio_Write_fits:
  "length p \<le> bufio_size - length (bw st) \<Longrightarrow> bufio_Write st p = st\<lparr>bw := bw st @ p\<rparr>"
  by (subst bufio_Write.simps) simp

lemma tc4_cb: "cb hdr_tc4 = cbInvalid"
  by (simp add: cb_invalid_iff hdr_tc4_def supported_def ColorType_Grayscale_def
        ColorType_TrueColor_def ColorType_Paletted_def ColorType_TrueColorAlpha_def
        BitDepth_4_def BitDepth_8_def BitDepth_16_def)

lemma tc4_goroutine:
  "goroutine store_coder std_colors hdr_tc4 (image_NRGBA one_pixel) DefaultCompression =
     ([], Closes)"
  unfolding goroutine_def tc4_cb writeImage_invalid
  by (simp add: store_coder_def image_NRGBA_def one_pixel_def z_Write_def bufio_Write_fits
        bufio_size_def DefaultCompression_def NoCompression_def)

theorem unsupported_not_rejected_witness:
  "(ColorType hdr_tc4, BitDepth hdr_tc4) \<notin> set supported \<and>
   cb hdr_tc4 = cbInvalid \<and>
   writeImage Buffer_Write std_colors [] (image_NRGBA one_pixel) (cb hdr_tc4) True = (Done, [2])"
proof -
  from unsupported_not_rejected[OF tc4_unsupported, of store_coder std_colors
      "image_NRGBA one_pixel" DefaultCompression Buffer_Write "[]" True]
  have "cb hdr_tc4 = cbInvalid" and
    "writeImage Buffer_Write std_colors [] (image_NRGBA one_pixel) (cb hdr_tc4) True =
       write_all Buffer_Write []
         (replicate (nat (MaxY (Bounds (image_NRGBA one_pixel :: unit image)) -
            MinY (Bounds (image_NRGBA one_pixel :: unit image)))) [if True then 2 else 0])"
    by blast+
  moreover have "write_all Buffer_Write []
         (replicate (nat (MaxY (Bounds (image_NRGBA one_pixel :: unit image)) -
            MinY (Bounds (image_NRGBA one_pixel :: unit image)))) [if True then 2 else 0]) = (Done, [2])"
    by (simp add: image_NRGBA_def one_pixel_def Buffer_Write_def)
  ultimately show ?thesis using tc4_unsupported by simp
qed

text \<open>
  With true color and bit depth 4 the encode starts and runs to its end: the error
  accessor is empty after \<open>NewEncoder_IDAT\<close>, and the consumer's loop ends on a closed
  channel, no error ever reported.
\<close>

theorem unsupported_starts_counterexample:
  "ColorType hdr_tc4 = ColorType_TrueColor \<and> BitDepth hdr_tc4 = BitDepth_4 \<and>
   Err (NewEncoder_IDAT store_coder std_colors hdr_tc4 (image_NRGBA one_pixel) DefaultCompression)
     = None \<and>
   consume (NewEncoder_IDAT store_coder std_colors hdr_tc4 (image_NRGBA one_pixel)
      DefaultCompression) = Returns ([], \<lparr>e_aw = ([], Closes), e_a = None\<rparr>)"
  by (simp add: Err_New) (simp add: hdr_tc4_def NewEncoder_IDAT_def tc4_goroutine[unfolded hdr_tc4_def]
        consume.simps Next_def Err_def)


section \<open>The two ways to read a row of an NRGBA image\<close>


lemma pixels_all:
  assumes "\<And>x. x \<in> set xs \<Longrightarrow> \<exists>bs. px x = Some bs \<and> length bs = k"
    and "i + k * length xs \<le> length dst"
  shows "pixels px xs i dst =
           Some (take i dst @ concat (map (\<lambda>x. the (px x)) xs) @ drop (i + k * length xs) dst)"
  using assms
proof (induction xs arbitrary: i dst)
  case Nil
  then show ?case by simp
next
  case (Cons x xs)
  from Cons.prems(1)[of x] obtain bs where bs: "px x = Some bs" "length bs = k" by auto
  define d1 where "d1 = take i dst @ bs @ drop (i + k) dst"
  have l1: "length d1 = length dst" using Cons.prems(2) bs(2) by (simp add: d1_def)
  have ik: "i + k \<le> length dst" using Cons.prems(2) by simp
  have step: "pixels px (x # xs) i dst = pixels px xs (i + k) d1"
    using bs ik by (simp add: d1_def)
  have "pixels px xs (i + k) d1 =
          Some (take (i + k) d1 @ concat (map (\<lambda>x. the (px x)) xs) @
                drop (i + k + k * length xs) d1)"
    using Cons.prems l1 by (intro Cons.IH) (auto simp: algebra_simps)
  moreover have "take (i + k) d1 = take i dst @ bs"
    using ik bs(2) by (simp add: d1_def)
  moreover have "drop (i + k + k * length xs) d1 = drop (i + k + k * length xs) dst"
    using ik bs(2) by (simp add: d1_def ac_simps)
  ultimately show ?case using step bs by (simp add: algebra_simps)
qed

lemma upto_as_upt: "[i..i + int n - 1] = map (\<lambda>k. i + int k) [0..<n]"
proof (induction n)
  case 0
  then show ?case by simp
next
  case (Suc n)
  have "[i..i + int (Suc n) - 1] = [i..i + int n - 1] @ [i + int n]"
    using upto_rec2[of i "i + int n"] by (simp add: algebra_simps)
  then show ?case using Suc by simp
qed

lemma concat_quads0:
  assumes "4 * n \<le> length Q"
  shows "concat (map (\<lambda>k. [Q ! (4 * k), Q ! Suc (4 * k), Q ! Suc (Suc (4 * k)),
                           Q ! Suc (Suc (Suc (4 * k)))]) [0..<n]) = take (4 * n) Q"
  using assms
proof (induction n)
  case 0
  then show ?case by simp
next
  case (Suc n)
  have l: "Suc (Suc (Suc (4 * n))) < length Q" using Suc.prems by simp
  have e: "4 * Suc n = Suc (Suc (Suc (Suc (4 * n))))" by simp
  have "take (4 * Suc n) Q =
          take (4 * n) Q @
          [Q ! (4 * n), Q ! Suc (4 * n), Q ! Suc (Suc (4 * n)), Q ! Suc (Suc (Suc (4 * n)))]"
    using l by (simp only: e) (simp add: take_Suc_conv_app_nth)
  then show ?case using Suc by simp
qed

lemma concat_quads:
  assumes "off + 4 * n \<le> length P"
  shows "concat (map (\<lambda>k. [P ! (off + 4 * k), P ! Suc (off + 4 * k),
                           P ! Suc (Suc (off + 4 * k)), P ! Suc (Suc (Suc (off + 4 * k)))])
           [0..<n]) = take (4 * n) (drop off P)"
proof -
  have "4 * n \<le> length (drop off P)" using assms by simp
  from concat_quads0[OF this] show ?thesis using assms by simp
qed


lemmas cb_defs = cbInvalid_def cbG8_def cbTC8_def cbP8_def cbTCA8_def cbTC16_def cbTCA16_def
  cbG16_def

lemma convert_row_NRGBA_fast:
  assumes off: "0 \<le> (y - MinY (Rect p)) * Stride p"
      "(y - MinY (Rect p)) * Stride p + Dx (Rect p) * 4 \<le> int (length (Pix p))"
    and dx: "0 \<le> Dx (Rect p)"
    and len: "length dst = Suc (4 * nat (Dx (Rect p)))"
  shows "convert_row lib (image_NRGBA p) cbTCA8 y dst =
           Some (hd dst # take (4 * nat (Dx (Rect p)))
                            (drop (nat ((y - MinY (Rect p)) * Stride p)) (Pix p)))"
proof -
  define o' where "o' = (y - MinY (Rect p)) * Stride p"
  define n where "n = nat (Dx (Rect p))"
  have dxn: "Dx (Rect p) = int n" using dx by (simp add: n_def)
  obtain t d where dst: "dst = t # d" "length d = 4 * n"
    using len by (cases dst) (auto simp: n_def)
  have sl: "slice (Pix p) o' (o' + Dx (Rect p) * 4) = Some (take (4 * n) (drop (nat o') (Pix p)))"
    using off dx by (simp add: slice_def o'_def dxn nat_mult_distrib mult.commute)
  have ls: "length (take (4 * n) (drop (nat o') (Pix p))) = 4 * n"
    using off by (simp add: o'_def dxn)
  have cp: "copy1 dst (take (4 * n) (drop (nat o') (Pix p))) =
              Some (t # take (4 * n) (drop (nat o') (Pix p)))"
    using ls by (simp add: copy1_def dst)
  show ?thesis
    using sl cp
    by (simp add: convert_row_def image_NRGBA_def Let_def cb_defs
          o'_def[symmetric] n_def[symmetric] dst)
qed

lemma convert_row_NRGBA_generic:
  assumes y: "MinY (Rect p) \<le> y" "y < MaxY (Rect p)"
    and off: "0 \<le> (y - MinY (Rect p)) * Stride p"
      "(y - MinY (Rect p)) * Stride p + Dx (Rect p) * 4 \<le> int (length (Pix p))"
    and dx: "0 \<le> Dx (Rect p)"
    and len: "length dst = Suc (4 * nat (Dx (Rect p)))"
  shows "convert_row lib (behind_interface (image_NRGBA p)) cbTCA8 y dst =
           Some (hd dst # take (4 * nat (Dx (Rect p)))
                            (drop (nat ((y - MinY (Rect p)) * Stride p)) (Pix p)))"
proof -
  define o' where "o' = nat ((y - MinY (Rect p)) * Stride p)"
  define n where "n = nat (Dx (Rect p))"
  define P where "P = Pix p"
  define x0 where "x0 = MinX (Rect p)"
  define px :: "int \<Rightarrow> byte list option" where
    "px = (\<lambda>x. map_option (\<lambda>col. case NRGBAModel lib col of (r, g, b, al) \<Rightarrow> [r, g, b, al])
                  (NRGBA_At p x y))"
  have dxn: "Dx (Rect p) = int n" using dx by (simp add: n_def)
  have mx: "MaxX (Rect p) = x0 + int n" using dxn by (simp add: Dx_def x0_def)
  have oo: "(y - MinY (Rect p)) * Stride p = int o'" using off by (simp add: o'_def)
  have bound: "o' + 4 * n \<le> length P" using off(2) unfolding oo dxn P_def by linarith
  obtain t d where dst: "dst = t # d" "length d = 4 * n"
    using len by (cases dst) (auto simp: n_def)
  have xs: "[MinX (Rect p)..MaxX (Rect p) - 1] = map (\<lambda>k. x0 + int k) [0..<n]"
    unfolding mx x0_def[symmetric] by (rule upto_as_upt)
  have pxk: "px (x0 + int k) =
      Some [P ! (o' + 4 * k), P ! Suc (o' + 4 * k), P ! Suc (Suc (o' + 4 * k)),
            P ! Suc (Suc (Suc (o' + 4 * k)))]" if "k < n" for k
  proof -
    have i: "PixOffset p (x0 + int k) y = int (o' + 4 * k)"
      by (simp add: PixOffset_def oo x0_def)
    have inb: "o' + 4 * k + 4 \<le> length P" using bound that by simp
    have n1: "nat (int (o' + 4 * k) + 1) = Suc (o' + 4 * k)"
      and n2: "nat (int (o' + 4 * k) + 2) = Suc (Suc (o' + 4 * k))"
      and n3: "nat (int (o' + 4 * k) + 3) = Suc (Suc (Suc (o' + 4 * k)))"
      by simp_all
    have n0: "nat (int o' + 4 * int k) = o' + 4 * k"
      by (simp add: nat_add_distrib nat_mult_distrib)
    have a: "NRGBA_At p (x0 + int k) y =
        (Some (NRGBA (P ! (o' + 4 * k)) (P ! Suc (o' + 4 * k)) (P ! Suc (Suc (o' + 4 * k)))
            (P ! Suc (Suc (Suc (o' + 4 * k))))) :: 'a color option)"
      unfolding NRGBA_At_def i Let_def n1 n2 n3
      using that y inb by (simp add: mx x0_def[symmetric] P_def[symmetric] n0)
    show ?thesis unfolding px_def a by (simp add: NRGBAModel_def)
  qed
  have all: "\<And>x. x \<in> set (map (\<lambda>k. x0 + int k) [0..<n]) \<Longrightarrow>
               \<exists>bs. px x = Some bs \<and> length bs = 4"
    using pxk by auto
  have fits: "1 + 4 * length (map (\<lambda>k. x0 + int k) [0..<n]) \<le> length dst"
    using dst by simp
  have cc: "concat (map (\<lambda>x. the (px x)) (map (\<lambda>k. x0 + int k) [0..<n])) =
              take (4 * n) (drop o' P)"
  proof -
    have m: "map (\<lambda>x. the (px x)) (map (\<lambda>k. x0 + int k) [0..<n]) =
          map (\<lambda>k. [P ! (o' + 4 * k), P ! Suc (o' + 4 * k), P ! Suc (Suc (o' + 4 * k)),
                     P ! Suc (Suc (Suc (o' + 4 * k)))]) [0..<n]"
      using pxk by simp
    show ?thesis by (simp only: m concat_quads[OF bound])
  qed
  have "pixels px (map (\<lambda>k. x0 + int k) [0..<n]) 1 dst =
          Some (take 1 dst @ concat (map (\<lambda>x. the (px x)) (map (\<lambda>k. x0 + int k) [0..<n])) @
                drop (1 + 4 * length (map (\<lambda>k. x0 + int k) [0..<n])) dst)"
    using all fits by (rule pixels_all)
  then have r: "pixels px (map (\<lambda>k. x0 + int k) [0..<n]) 1 dst =
                  Some (t # take (4 * n) (drop o' P))"
    using cc dst by simp
  show ?thesis
    using r
    by (simp add: convert_row_def behind_interface_def image_NRGBA_def Let_def cb_defs xs
          px_def[symmetric] o'_def[symmetric] n_def[symmetric] P_def[symmetric] dst)
qed





lemma rows_loop_step:
  assumes "convert_row lib m c y (cr0 cr) = Some c0"
    and "(if af then filter_row (cr\<lparr>cr0 := c0\<rparr>) pr bpp else Some (ftNone, cr\<lparr>cr0 := c0\<rparr>)) =
           Some (f, cr')"
    and "W w (row cr' f) = (n, e, w')"
  shows "rows_loop W lib m c af bpp (y # ys) cr pr w =
           (case e of Some x \<Rightarrow> (Failed x, w')
            | None \<Rightarrow> rows_loop W lib m c af bpp ys (cr'\<lparr>cr0 := pr\<rparr>) (cr0 cr') w')"
  using assms by (cases e) (simp_all del: rows_loop.simps add: rows_loop.simps(2))

lemma rows_loop_panic1:
  "convert_row lib m c y (cr0 cr) = None \<Longrightarrow>
   rows_loop W lib m c af bpp (y # ys) cr pr w = (Panicked, w)"
  by simp

lemma rows_loop_panic2:
  "convert_row lib m c y (cr0 cr) = Some c0 \<Longrightarrow>
   (if af then filter_row (cr\<lparr>cr0 := c0\<rparr>) pr bpp else Some (ftNone, cr\<lparr>cr0 := c0\<rparr>)) = None \<Longrightarrow>
   rows_loop W lib m c af bpp (y # ys) cr pr w = (Panicked, w)"
  by simp


declare rows_loop.simps(2) [simp del]

lemma rows_loop_cong:
  assumes eq: "\<And>y dst. y \<in> set ys \<Longrightarrow> length dst = L \<Longrightarrow>
                 convert_row lib m1 c y dst = convert_row lib m2 c y dst"
    and len: "\<And>y dst r. y \<in> set ys \<Longrightarrow> length dst = L \<Longrightarrow>
                 convert_row lib m1 c y dst = Some r \<Longrightarrow> length r = L"
    and "length (cr0 cr) = L" and "length pr = L"
  shows "rows_loop W lib m1 c af bpp ys cr pr w = rows_loop W lib m2 c af bpp ys cr pr w"
  using assms
proof (induction ys arbitrary: cr pr w)
  case Nil
  then show ?case by simp
next
  case (Cons y ys)
  have yin: "y \<in> set (y # ys)" by simp
  have e: "convert_row lib m1 c y (cr0 cr) = convert_row lib m2 c y (cr0 cr)"
    by (rule Cons.prems(1)[OF yin Cons.prems(3)])
  show ?case
  proof (cases "convert_row lib m1 c y (cr0 cr)")
    case None
    then have "convert_row lib m2 c y (cr0 cr) = None" using e by simp
    then show ?thesis using None by (simp only: rows_loop_panic1)
  next
    case (Some c0)
    note conv1 = Some
    have conv2: "convert_row lib m2 c y (cr0 cr) = Some c0" using e conv1 by simp
    have lc: "length c0 = L" by (rule Cons.prems(2)[OF yin Cons.prems(3) conv1])
    define fr where "fr = (if af then filter_row (cr\<lparr>cr0 := c0\<rparr>) pr bpp
                           else Some (ftNone, cr\<lparr>cr0 := c0\<rparr>))"
    show ?thesis
    proof (cases fr)
      case None
      then show ?thesis
        by (simp only: rows_loop_panic2[OF conv1 None[unfolded fr_def]]
              rows_loop_panic2[OF conv2 None[unfolded fr_def]])
    next
      case (Some fc)
      obtain f cr' where fc: "fc = (f, cr')" by (cases fc)
      have frs: "(if af then filter_row (cr\<lparr>cr0 := c0\<rparr>) pr bpp
                  else Some (ftNone, cr\<lparr>cr0 := c0\<rparr>)) = Some (f, cr')"
        using Some fc by (simp only: fr_def)
      have c0': "cr0 cr' = c0"
      proof (cases af)
        case True
        then have "filter_row (cr\<lparr>cr0 := c0\<rparr>) pr bpp = Some (f, cr')"
          using frs by simp
        from filter_row_char(4)[OF this] show ?thesis by simp
      next
        case False
        then have "cr' = cr\<lparr>cr0 := c0\<rparr>" using frs by simp
        then show ?thesis by simp
      qed
      obtain n e' w' where wr: "W w (row cr' f) = (n, e', w')" by (metis prod_cases3)
      have ih: "rows_loop W lib m1 c af bpp ys (cr'\<lparr>cr0 := pr\<rparr>) (cr0 cr') w' =
                rows_loop W lib m2 c af bpp ys (cr'\<lparr>cr0 := pr\<rparr>) (cr0 cr') w'"
      proof (rule Cons.IH)
        fix y' and dst :: "byte list"
        assume a: "y' \<in> set ys" "length dst = L"
        then have "y' \<in> set (y # ys)" by simp
        then show "convert_row lib m1 c y' dst = convert_row lib m2 c y' dst"
          using a(2) by (rule Cons.prems(1))
      next
        fix y' and dst r :: "byte list"
        assume a: "y' \<in> set ys" "length dst = L" "convert_row lib m1 c y' dst = Some r"
        then have "y' \<in> set (y # ys)" by simp
        then show "length r = L" using a(2,3) by (rule Cons.prems(2))
      next
        show "length (cr0 (cr'\<lparr>cr0 := pr\<rparr>)) = L" using Cons.prems(4) by simp
      next
        show "length (cr0 cr') = L" using c0' lc by simp
      qed
      show ?thesis
        by (simp only: rows_loop_step[where W = W and w = w, OF conv1 frs wr]
              rows_loop_step[where W = W and w = w, OF conv2 frs wr] ih)
    qed
  qed
qed



lemma bpp_of_TCA8: "bpp_of cbTCA8 = 4"
  by (simp add: bpp_of_def cb_defs)

text \<open>
  Claim C10. For an \<open>*image.NRGBA\<close> whose storage holds its rows, and the layout of
  8-bit true color with alpha, the row that \<open>writeImage\<close> copies from \<open>Pix\<close> is the row it
  builds pixel by pixel, through \<open>At\<close> and the NRGBA color model, when the same image is
  passed behind the plain image interface: for every row of the rectangle the two
  conversions give the same bytes, and \<open>writeImage\<close> as a whole gives the writer the same
  calls and returns the same result on both paths.
\<close>

theorem NRGBA_paths_agree:
  assumes "NRGBA_valid p"
  shows "(\<forall>y dst. MinY (Rect p) \<le> y \<and> y < MaxY (Rect p) \<and> 0 \<le> Dx (Rect p) \<and>
            length dst = Suc (4 * nat (Dx (Rect p))) \<longrightarrow>
            convert_row lib (image_NRGBA p) cbTCA8 y dst =
            convert_row lib (behind_interface (image_NRGBA p)) cbTCA8 y dst) \<and>
         writeImage W lib w (image_NRGBA p) cbTCA8 af =
         writeImage W lib w (behind_interface (image_NRGBA p)) cbTCA8 af"
proof -
  have v: "\<And>y. MinY (Rect p) \<le> y \<Longrightarrow> y < MaxY (Rect p) \<Longrightarrow>
            0 \<le> (y - MinY (Rect p)) * Stride p \<and>
            (y - MinY (Rect p)) * Stride p + Dx (Rect p) * 4 \<le> int (length (Pix p))"
    using assms by (simp add: NRGBA_valid_def)
  have both: "convert_row lib (image_NRGBA p) cbTCA8 y dst =
                Some (hd dst # take (4 * nat (Dx (Rect p)))
                            (drop (nat ((y - MinY (Rect p)) * Stride p)) (Pix p))) \<and>
              convert_row lib (behind_interface (image_NRGBA p)) cbTCA8 y dst =
                Some (hd dst # take (4 * nat (Dx (Rect p)))
                            (drop (nat ((y - MinY (Rect p)) * Stride p)) (Pix p)))"
    if "MinY (Rect p) \<le> y" "y < MaxY (Rect p)" "0 \<le> Dx (Rect p)"
       "length dst = Suc (4 * nat (Dx (Rect p)))" for y dst
    using convert_row_NRGBA_fast[OF _ _ that(3,4), of y lib]
      convert_row_NRGBA_generic[OF that(1,2) _ _ that(3,4), of lib] v[OF that(1,2)]
    by simp
  have rows: "\<forall>y dst. MinY (Rect p) \<le> y \<and> y < MaxY (Rect p) \<and> 0 \<le> Dx (Rect p) \<and>
            length dst = Suc (4 * nat (Dx (Rect p))) \<longrightarrow>
            convert_row lib (image_NRGBA p) cbTCA8 y dst =
            convert_row lib (behind_interface (image_NRGBA p)) cbTCA8 y dst"
    using both by simp
  have bnd: "Bounds (behind_interface (image_NRGBA p) :: 'a image) = Rect p"
    "Bounds (image_NRGBA p :: 'a image) = Rect p"
    by (simp_all add: behind_interface_def image_NRGBA_def)
  have wi: "writeImage W lib w (image_NRGBA p) cbTCA8 af =
         writeImage W lib w (behind_interface (image_NRGBA p)) cbTCA8 af"
  proof (cases "1 + 4 * Dx (Rect p) < 0")
    case True
    then show ?thesis by (simp add: writeImage_def bpp_of_TCA8 bnd Let_def)
  next
    case False
    then have dx: "0 \<le> Dx (Rect p)" by linarith
    define L where "L = Suc (4 * nat (Dx (Rect p)))"
    have nl: "nat (1 + 4 * Dx (Rect p)) = L" using dx by (simp add: L_def nat_add_distrib nat_mult_distrib)
    have "rows_loop W lib (image_NRGBA p) cbTCA8 af 4 [MinY (Rect p)..MaxY (Rect p) - 1]
            \<lparr>cr0 = 0 # replicate (L - 1) 0, cr1 = 1 # replicate (L - 1) 0,
             cr2 = 2 # replicate (L - 1) 0, cr3 = 3 # replicate (L - 1) 0,
             cr4 = 4 # replicate (L - 1) 0\<rparr> (replicate L 0) w =
          rows_loop W lib (behind_interface (image_NRGBA p)) cbTCA8 af 4
            [MinY (Rect p)..MaxY (Rect p) - 1]
            \<lparr>cr0 = 0 # replicate (L - 1) 0, cr1 = 1 # replicate (L - 1) 0,
             cr2 = 2 # replicate (L - 1) 0, cr3 = 3 # replicate (L - 1) 0,
             cr4 = 4 # replicate (L - 1) 0\<rparr> (replicate L 0) w"
    proof (rule rows_loop_cong[where L = L])
      fix y and dst :: "byte list"
      assume "y \<in> set [MinY (Rect p)..MaxY (Rect p) - 1]" "length dst = L"
      then show "convert_row lib (image_NRGBA p) cbTCA8 y dst =
                 convert_row lib (behind_interface (image_NRGBA p)) cbTCA8 y dst"
        using both[of y dst] dx by (simp add: L_def)
    next
      fix y and dst r :: "byte list"
      assume "y \<in> set [MinY (Rect p)..MaxY (Rect p) - 1]" "length dst = L"
        "convert_row lib (image_NRGBA p) cbTCA8 y dst = Some r"
      then have "r = hd dst # take (4 * nat (Dx (Rect p)))
                            (drop (nat ((y - MinY (Rect p)) * Stride p)) (Pix p))"
        and "0 \<le> (y - MinY (Rect p)) * Stride p \<and>
            (y - MinY (Rect p)) * Stride p + Dx (Rect p) * 4 \<le> int (length (Pix p))"
        using both[of y dst] v[of y] dx by (simp_all add: L_def)
      then show "length r = L" using dx by (simp add: L_def) linarith
    qed (simp_all add: L_def)
    then show ?thesis using False
      by (simp add: writeImage_def bpp_of_TCA8 bnd Let_def nl)
  qed
  show ?thesis using rows wi by blast
qed



lemma one_pixel_valid: "NRGBA_valid one_pixel"
  by (auto simp: NRGBA_valid_def one_pixel_def Dx_def)

lemma one_pixel_fast:
  "writeImage Buffer_Write std_colors [] (image_NRGBA one_pixel) cbTCA8 True =
     (Done, [2, 1, 2, 3, 255])"
  by code_simp

theorem NRGBA_paths_agree_witness:
  "NRGBA_valid one_pixel \<and>
   writeImage Buffer_Write std_colors [] (image_NRGBA one_pixel) cbTCA8 True =
     (Done, [2, 1, 2, 3, 255]) \<and>
   writeImage Buffer_Write std_colors [] (behind_interface (image_NRGBA one_pixel)) cbTCA8 True =
     (Done, [2, 1, 2, 3, 255])"
proof -
  from NRGBA_paths_agree[OF one_pixel_valid, of std_colors Buffer_Write "[]" True]
  have "writeImage Buffer_Write std_colors [] (image_NRGBA one_pixel) cbTCA8 True =
        writeImage Buffer_Write std_colors [] (behind_interface (image_NRGBA one_pixel)) cbTCA8 True"
    by (elim conjE)
  then show ?thesis using one_pixel_valid one_pixel_fast by simp
qed


section \<open>The encoder as the consumer sees it\<close>

subsection \<open>What the buffered channel sends\<close>












subsection \<open>The end of the stream\<close>

text \<open>
  The goroutine never calls \<open>Close\<close> on the compressor and never flushes the
  \<open>bufio.Writer\<close>: what the consumer receives does not depend on \<open>Close\<close>.
\<close>


lemma z_Write_ignores_Close: "z_Write (cd\<lparr>zClose := f\<rparr>) = z_Write cd"
  by (rule ext, rule ext) (simp add: z_Write_def)

lemma goroutine_ignores_Close:
  "goroutine (cd\<lparr>zClose := f\<rparr>) lib c m cl = goroutine cd lib c m cl"
  by (simp add: goroutine_def z_Write_ignores_Close split: sum.splits)

lemma tca8_cb: "cb hdr_tca8 = cbTCA8"
  by code_simp

lemma one_pixel_convert:
  "convert_row std_colors (image_NRGBA one_pixel) cbTCA8 0 [0, 0, 0, 0, 0] = Some [0, 1, 2, 3, 255]"
  by code_simp

lemma one_pixel_filter:
  "filter_row \<lparr>cr0 = [0, 1, 2, 3, 255], cr1 = [1, 0, 0, 0, 0], cr2 = [2, 0, 0, 0, 0],
            cr3 = [3, 0, 0, 0, 0], cr4 = [4, 0, 0, 0, 0]\<rparr> [0, 0, 0, 0, 0] 4 =
   Some (2, \<lparr>cr0 = [0, 1, 2, 3, 255], cr1 = [1, 1, 2, 3, 255], cr2 = [2, 1, 2, 3, 255],
            cr3 = [3, 1, 2, 3, 255], cr4 = [4, 1, 2, 3, 255]\<rparr>)"
  by code_simp

lemma store_coder_Write:
  "z_Write store_coder ((), \<lparr>bw = [], sent = []\<rparr>) [2, 1, 2, 3, 255] =
     (5, None, ((), \<lparr>bw = [2, 1, 2, 3, 255], sent = []\<rparr>))"
  by (simp add: z_Write_def store_coder_def bufio_Write_fits bufio_size_def)

lemma one_pixel_stored:
  "writeImage (z_Write store_coder) std_colors ((), \<lparr>bw = [], sent = []\<rparr>)
      (image_NRGBA one_pixel) cbTCA8 True =
     (Done, ((), \<lparr>bw = [2, 1, 2, 3, 255], sent = []\<rparr>))"
proof -
  define cr where "cr = \<lparr>cr0 = [0, 0, 0, 0, 0], cr1 = [1, 0, 0, 0, 0], cr2 = [2, 0, 0, 0, 0],
            cr3 = [3, 0, 0, 0, 0], cr4 = [4, 0, 0, 0, 0::byte]\<rparr>"
  define cr' where "cr' = \<lparr>cr0 = [0, 1, 2, 3, 255], cr1 = [1, 1, 2, 3, 255],
            cr2 = [2, 1, 2, 3, 255], cr3 = [3, 1, 2, 3, 255], cr4 = [4, 1, 2, 3, 255::byte]\<rparr>"
  have w: "writeImage (z_Write store_coder) std_colors ((), \<lparr>bw = [], sent = []\<rparr>)
      (image_NRGBA one_pixel) cbTCA8 True =
      rows_loop (z_Write store_coder) std_colors (image_NRGBA one_pixel) cbTCA8 True 4 [0] cr
        [0, 0, 0, 0, 0] ((), \<lparr>bw = [], sent = []\<rparr>)"
  proof -
    have r4: "replicate 4 (0::byte) = [0, 0, 0, 0]" by (simp add: numeral_eq_Suc)
    have r5: "replicate 5 (0::byte) = [0, 0, 0, 0, 0]" by (simp add: numeral_eq_Suc)
    show ?thesis
      by (simp add: writeImage_def Let_def bpp_of_TCA8 image_NRGBA_def one_pixel_def Dx_def
            cr_def r4 r5 upto.simps)
  qed
  have c: "convert_row std_colors (image_NRGBA one_pixel) cbTCA8 0 (cr0 cr) = Some [0, 1, 2, 3, 255]"
    by (simp add: cr_def one_pixel_convert)
  have f: "(if True then filter_row (cr\<lparr>cr0 := [0, 1, 2, 3, 255]\<rparr>) [0, 0, 0, 0, 0] 4
            else Some (ftNone, cr\<lparr>cr0 := [0, 1, 2, 3, 255]\<rparr>)) = Some (2, cr')"
    by (simp add: cr_def cr'_def one_pixel_filter)
  have r: "z_Write store_coder ((), \<lparr>bw = [], sent = []\<rparr>) (row cr' 2) =
     (5, None, ((), \<lparr>bw = [2, 1, 2, 3, 255], sent = []\<rparr>))"
    by (simp add: row_def cr'_def store_coder_Write)
  show ?thesis
    unfolding w rows_loop_step[where W = "z_Write store_coder", OF c f r]
    by simp
qed

text \<open>
  Claim C5. The image of one pixel, encoded as 8-bit true color with alpha at the default
  compression level through the storing compressor: \<open>writeImage\<close> returns \<open>nil\<close> with the
  five bytes of the only row still in the \<open>bufio.Writer\<close>, the compressor's \<open>Close\<close> would
  have ended the stream with one more byte, and the goroutine closes the channel without
  having sent anything. The consumer's loop ends with no unit at all and no error.
\<close>

theorem encoder_never_closes:
  "writeImage (z_Write store_coder) std_colors ((), \<lparr>bw = [], sent = []\<rparr>)
      (image_NRGBA one_pixel) (cb hdr_tca8) (DefaultCompression \<noteq> NoCompression) =
     (Done, ((), \<lparr>bw = [2, 1, 2, 3, 255], sent = []\<rparr>)) \<and>
   zClose store_coder () = [[0]] \<and>
   goroutine store_coder std_colors hdr_tca8 (image_NRGBA one_pixel) DefaultCompression =
     ([], Closes) \<and>
   consume (NewEncoder_IDAT store_coder std_colors hdr_tca8 (image_NRGBA one_pixel)
      DefaultCompression) = Returns ([], \<lparr>e_aw = ([], Closes), e_a = None\<rparr>)"
proof -
  have z: "zNew store_coder (zlib_level DefaultCompression) = Inr ()"
    by (simp add: store_coder_def)
  have d: "(DefaultCompression \<noteq> NoCompression) = True"
    by (simp add: DefaultCompression_def NoCompression_def)
  have g: "goroutine store_coder std_colors hdr_tca8 (image_NRGBA one_pixel) DefaultCompression =
     ([], Closes)"
    by (simp add: goroutine_def z d tca8_cb one_pixel_stored)
  have n: "Next \<lparr>e_aw = ([], Closes), e_a = None\<rparr> =
             Returns (False, \<lparr>e_aw = ([], Closes), e_a = None\<rparr>)"
    by (simp add: Next_def Err_def)
  have c: "consume \<lparr>e_aw = ([], Closes), e_a = None\<rparr> =
             Returns ([], \<lparr>e_aw = ([], Closes), e_a = None\<rparr>)"
    by (subst consume.simps) (simp add: n)
  have k: "zClose store_coder () = [[0]]" by (simp add: store_coder_def)
  show ?thesis
    by (simp add: one_pixel_stored g c d k tca8_cb NewEncoder_IDAT_def)
qed

subsection \<open>Failures of the producer\<close>



















end
